theory Spec2Isabelle
  imports Main "HOL-Library.Word"
begin

unbundle bit_operations_syntax

section \<open>The ChaCha stream cipher of \<^verbatim>\<open>chacha.go\<close>\<close>

text \<open>
  Go's \<^verbatim>\<open>byte\<close>, \<^verbatim>\<open>uint32\<close> and \<^verbatim>\<open>uint64\<close> are words of 8, 32 and 64 bits: addition
  wraps around, \<^verbatim>\<open><<\<close> is \<open>push_bit\<close>, \<^verbatim>\<open>>>\<close> is \<open>drop_bit\<close>, a conversion between
  widths is \<open>ucast\<close>. The fields \<^verbatim>\<open>nextByte\<close> and \<^verbatim>\<open>rounds\<close> have Go's type \<^verbatim>\<open>int\<close>;
  the code only compares them, adds one to a value of at most 64 and subtracts two from
  a positive value, so no operation on them can overflow and they are modelled as \<open>int\<close>.
\<close>

type_synonym byte = "8 word"
type_synonym u32 = "32 word"
type_synonym u64 = "64 word"

subsection \<open>Errors and panics\<close>

text \<open>
  The two error values of the source: \<^verbatim>\<open>errors.New("exhausted keystream")\<close>, returned by
  \<^verbatim>\<open>next\<close>, and \<^verbatim>\<open>io.EOF\<close>, returned by \<^verbatim>\<open>Read\<close>.
\<close>

datatype go_error = ExhaustedKeystream | EOF

text \<open>
  A panic is either raised by the Go runtime, when an index or a slice bound is out of
  range, or by the statement \<^verbatim>\<open>panic(err)\<close> of \<^verbatim>\<open>XORKeyStream\<close>.
\<close>

datatype panic = IndexOutOfRange | SliceBoundsOutOfRange | PanicErr go_error

definition bind_panic :: "panic + 'a \<Rightarrow> ('a \<Rightarrow> panic + 'b) \<Rightarrow> panic + 'b" where
  "bind_panic m f = (case m of Inl e \<Rightarrow> Inl e | Inr x \<Rightarrow> f x)"

subsection \<open>Little-endian words (\<^verbatim>\<open>encoding/binary\<close>)\<close>

text \<open>The slice expression \<^verbatim>\<open>b[k:]\<close> panics when \<open>k\<close> exceeds the length of \<open>b\<close>.\<close>

definition slice_from :: "byte list \<Rightarrow> nat \<Rightarrow> panic + byte list" where
  "slice_from b k = (if length b < k then Inl SliceBoundsOutOfRange else Inr (drop k b))"

text \<open>
  \<^verbatim>\<open>binary.LittleEndian.Uint32(b)\<close> starts with the bounds check \<^verbatim>\<open>_ = b[3]\<close> and returns
  \<^verbatim>\<open>uint32(b[0]) | uint32(b[1])<<8 | uint32(b[2])<<16 | uint32(b[3])<<24\<close>.
\<close>

definition Uint32 :: "byte list \<Rightarrow> panic + u32" where
  "Uint32 b =
     (if length b \<le> 3 then Inl IndexOutOfRange
      else Inr (ucast (b ! 0) OR push_bit 8 (ucast (b ! 1))
                OR push_bit 16 (ucast (b ! 2)) OR push_bit 24 (ucast (b ! 3))))"

text \<open>
  \<^verbatim>\<open>binary.LittleEndian.PutUint32(c.output[off:], v)\<close> stores \<^verbatim>\<open>byte(v)\<close>, \<^verbatim>\<open>byte(v >> 8)\<close>,
  \<^verbatim>\<open>byte(v >> 16)\<close> and \<^verbatim>\<open>byte(v >> 24)\<close> at the offsets \<open>off\<close> to \<open>off + 3\<close>. The
  source only calls it on the 64-byte array \<^verbatim>\<open>c.output\<close> at the constant offsets
  \<open>0, 4, ..., 60\<close>, where its bounds check cannot fail.
\<close>

definition PutUint32 :: "byte list \<Rightarrow> nat \<Rightarrow> u32 \<Rightarrow> byte list" where
  "PutUint32 buf off v =
     buf[off := ucast v, off + 1 := ucast (drop_bit 8 v),
         off + 2 := ucast (drop_bit 16 v), off + 3 := ucast (drop_bit 24 v)]"

subsection \<open>The cipher state\<close>

text \<open>
  The struct \<^verbatim>\<open>Cipher\<close>. The arrays \<^verbatim>\<open>[16]uint32\<close> and \<^verbatim>\<open>[64]byte\<close> are lists; that they
  have 16 and 64 elements is the well-formedness condition \<open>wf_Cipher\<close>.
\<close>

record Cipher =
  input :: "u32 list"
  "output" :: "byte list"
  nextByte :: int
  rounds :: int
  eof :: bool

definition wf_Cipher :: "Cipher \<Rightarrow> bool" where
  "wf_Cipher c \<longleftrightarrow> length (input c) = 16 \<and> length (output c) = 64"

text \<open>\<^verbatim>\<open>new(Cipher)\<close>: every field has its zero value.\<close>

definition new_Cipher :: Cipher where
  "new_Cipher = \<lparr>input = replicate 16 0, output = replicate 64 0,
                  nextByte = 0, rounds = 0, eof = False\<rparr>"

subsection \<open>\<^verbatim>\<open>New\<close>\<close>

text \<open>The argument of \<^verbatim>\<open>binary.LittleEndian.Uint32(key[k:])\<close>, with both bounds checks.\<close>

definition Uint32_at :: "byte list \<Rightarrow> nat \<Rightarrow> panic + u32" where
  "Uint32_at b k = bind_panic (slice_from b k) Uint32"

text \<open>
  \<^verbatim>\<open>New\<close> has no error result: it returns the cipher, or one of its reads of \<open>key\<close> and
  \<open>iv\<close> panics. The reads happen in the order of the statements, the key first.
\<close>

definition New :: "byte list \<Rightarrow> byte list \<Rightarrow> int \<Rightarrow> panic + Cipher" where
  "New key iv rnds =
     bind_panic (Uint32_at key 0) (\<lambda>k0.
     bind_panic (Uint32_at key 4) (\<lambda>k1.
     bind_panic (Uint32_at key 8) (\<lambda>k2.
     bind_panic (Uint32_at key 12) (\<lambda>k3.
     bind_panic (Uint32_at key 16) (\<lambda>k4.
     bind_panic (Uint32_at key 20) (\<lambda>k5.
     bind_panic (Uint32_at key 24) (\<lambda>k6.
     bind_panic (Uint32_at key 28) (\<lambda>k7.
     bind_panic (Uint32_at iv 0) (\<lambda>n0.
     bind_panic (Uint32_at iv 4) (\<lambda>n1.
       Inr (new_Cipher
         \<lparr>input := (input new_Cipher)
            [0 := 0x61707865, 1 := 0x3320646e, 2 := 0x79622d32, 3 := 0x6b206574,
             4 := k0, 5 := k1, 6 := k2, 7 := k3, 8 := k4, 9 := k5, 10 := k6, 11 := k7,
             14 := n0, 15 := n1],
          rounds := rnds,
          nextByte := 64\<rparr>)))))))))))"

subsection \<open>\<^verbatim>\<open>next\<close>: the block function\<close>

text \<open>The sixteen local variables \<^verbatim>\<open>a\<close> to \<^verbatim>\<open>p\<close> of \<^verbatim>\<open>next\<close>.\<close>

type_synonym vars =
  "u32 \<times> u32 \<times> u32 \<times> u32 \<times> u32 \<times> u32 \<times> u32 \<times> u32 \<times>
   u32 \<times> u32 \<times> u32 \<times> u32 \<times> u32 \<times> u32 \<times> u32 \<times> u32"

text \<open>
  The body of the loop of \<^verbatim>\<open>next\<close>, statement by statement (the variable \<^verbatim>\<open>o\<close> of the
  source is \<open>o1\<close> here).
\<close>

definition loop_body :: "vars \<Rightarrow> vars" where
  "loop_body = (\<lambda>(a, b, c1, d, e, f, g, h, i, j, k, l, m, n, o1, p).
     (let
       a = a + e;
       t = m XOR a;
       m = push_bit 16 t OR drop_bit (32 - 16) t;
       i = i + m;
       t = e XOR i;
       e = push_bit 12 t OR drop_bit (32 - 12) t;
       a = a + e;
       t = m XOR a;
       m = push_bit 8 t OR drop_bit (32 - 8) t;
       i = i + m;
       t = e XOR i;
       e = push_bit 7 t OR drop_bit (32 - 7) t;

       b = b + f;
       t = n XOR b;
       n = push_bit 16 t OR drop_bit (32 - 16) t;
       j = j + n;
       t = f XOR j;
       f = push_bit 12 t OR drop_bit (32 - 12) t;
       b = b + f;
       t = n XOR b;
       n = push_bit 8 t OR drop_bit (32 - 8) t;
       j = j + n;
       t = f XOR j;
       f = push_bit 7 t OR drop_bit (32 - 7) t;

       c1 = c1 + g;
       t = o1 XOR c1;
       o1 = push_bit 16 t OR drop_bit (32 - 16) t;
       k = k + o1;
       t = g XOR k;
       g = push_bit 12 t OR drop_bit (32 - 12) t;
       c1 = c1 + g;
       t = o1 XOR c1;
       o1 = push_bit 8 t OR drop_bit (32 - 8) t;
       k = k + o1;
       t = g XOR k;
       g = push_bit 7 t OR drop_bit (32 - 7) t;

       d = d + h;
       t = p XOR d;
       p = push_bit 16 t OR drop_bit (32 - 16) t;
       l = l + p;
       t = h XOR l;
       h = push_bit 12 t OR drop_bit (32 - 12) t;
       d = d + h;
       t = p XOR d;
       p = push_bit 8 t OR drop_bit (32 - 8) t;
       l = l + p;
       t = h XOR l;
       h = push_bit 7 t OR drop_bit (32 - 7) t;

       a = a + f;
       t = p XOR a;
       p = push_bit 16 t OR drop_bit (32 - 16) t;
       k = k + p;
       t = f XOR k;
       f = push_bit 12 t OR drop_bit (32 - 12) t;
       a = a + f;
       t = p XOR a;
       p = push_bit 8 t OR drop_bit (32 - 8) t;
       k = k + p;
       t = f XOR k;
       f = push_bit 7 t OR drop_bit (32 - 7) t;

       b = b + g;
       t = m XOR b;
       m = push_bit 16 t OR drop_bit (32 - 16) t;
       l = l + m;
       t = g XOR l;
       g = push_bit 12 t OR drop_bit (32 - 12) t;
       b = b + g;
       t = m XOR b;
       m = push_bit 8 t OR drop_bit (32 - 8) t;
       l = l + m;
       t = g XOR l;
       g = push_bit 7 t OR drop_bit (32 - 7) t;

       c1 = c1 + h;
       t = n XOR c1;
       n = push_bit 16 t OR drop_bit (32 - 16) t;
       i = i + n;
       t = h XOR i;
       h = push_bit 12 t OR drop_bit (32 - 12) t;
       c1 = c1 + h;
       t = n XOR c1;
       n = push_bit 8 t OR drop_bit (32 - 8) t;
       i = i + n;
       t = h XOR i;
       h = push_bit 7 t OR drop_bit (32 - 7) t;

       d = d + e;
       t = o1 XOR d;
       o1 = push_bit 16 t OR drop_bit (32 - 16) t;
       j = j + o1;
       t = e XOR j;
       e = push_bit 12 t OR drop_bit (32 - 12) t;
       d = d + e;
       t = o1 XOR d;
       o1 = push_bit 8 t OR drop_bit (32 - 8) t;
       j = j + o1;
       t = e XOR j;
       e = push_bit 7 t OR drop_bit (32 - 7) t
      in (a, b, c1, d, e, f, g, h, i, j, k, l, m, n, o1, p)))"

text \<open>\<^verbatim>\<open>for z := c.rounds; z > 0; z -= 2 { ... }\<close>\<close>

function next_loop :: "int \<Rightarrow> vars \<Rightarrow> vars" where
  "next_loop z v = (if 0 < z then next_loop (z - 2) (loop_body v) else v)"
  by pat_completeness auto
termination
  by (relation "measure (\<lambda>(z, v). nat z)") auto

declare next_loop.simps [simp del]

text \<open>
  \<^verbatim>\<open>next\<close> returns an error and changes the cipher; the model returns both. When the
  keystream is exhausted the cipher is unchanged.
\<close>

definition next_block :: "Cipher \<Rightarrow> go_error option \<times> Cipher" where
  "next_block c =
     (if eof c then (Some ExhaustedKeystream, c)
      else
       (let
       a = input c ! 0;
       b = input c ! 1;
       c1 = input c ! 2;
       d = input c ! 3;
       e = input c ! 4;
       f = input c ! 5;
       g = input c ! 6;
       h = input c ! 7;
       i = input c ! 8;
       j = input c ! 9;
       k = input c ! 10;
       l = input c ! 11;
       m = input c ! 12;
       n = input c ! 13;
       o1 = input c ! 14;
       p = input c ! 15;
       (a, b, c1, d, e, f, g, h, i, j, k, l, m, n, o1, p) = next_loop (rounds c) (a, b, c1, d, e, f, g, h, i, j, k, l, m, n, o1, p);
       out = output c;
       a = a + input c ! 0;
       out = PutUint32 out (4 * 0) a;
       b = b + input c ! 1;
       out = PutUint32 out (4 * 1) b;
       c1 = c1 + input c ! 2;
       out = PutUint32 out (4 * 2) c1;
       d = d + input c ! 3;
       out = PutUint32 out (4 * 3) d;
       e = e + input c ! 4;
       out = PutUint32 out (4 * 4) e;
       f = f + input c ! 5;
       out = PutUint32 out (4 * 5) f;
       g = g + input c ! 6;
       out = PutUint32 out (4 * 6) g;
       h = h + input c ! 7;
       out = PutUint32 out (4 * 7) h;
       i = i + input c ! 8;
       out = PutUint32 out (4 * 8) i;
       j = j + input c ! 9;
       out = PutUint32 out (4 * 9) j;
       k = k + input c ! 10;
       out = PutUint32 out (4 * 10) k;
       l = l + input c ! 11;
       out = PutUint32 out (4 * 11) l;
       m = m + input c ! 12;
       out = PutUint32 out (4 * 12) m;
       n = n + input c ! 13;
       out = PutUint32 out (4 * 13) n;
       o1 = o1 + input c ! 14;
       out = PutUint32 out (4 * 14) o1;
       p = p + input c ! 15;
       out = PutUint32 out (4 * 15) p;
       ctr = (push_bit 32 (ucast (input c ! 13)) OR ucast (input c ! 12)) + (1 :: u64);
       c = (if ctr = 0 then c\<lparr>eof := True\<rparr> else c);
       c = c\<lparr>output := out\<rparr>;
       c = c\<lparr>input := (input c)[12 := ucast ctr]\<rparr>;
       c = c\<lparr>input := (input c)[13 := ucast (drop_bit 32 ctr)]\<rparr>;
       c = c\<lparr>nextByte := 0\<rparr>
       in (None, c)))"


subsection \<open>\<^verbatim>\<open>Seek\<close>\<close>

text \<open>The result of \<^verbatim>\<open>c.next()\<close> is dropped, as in the source.\<close>

definition Seek :: "Cipher \<Rightarrow> u64 \<Rightarrow> Cipher" where
  "Seek c n =
     (let c = c\<lparr>input := (input c)[12 := ucast n]\<rparr>;
          c = c\<lparr>input := (input c)[13 := ucast (drop_bit 32 n)]\<rparr>;
          c = c\<lparr>eof := False\<rparr>
      in snd (next_block c))"

subsection \<open>\<^verbatim>\<open>Read\<close>\<close>

text \<open>
  The loop of \<^verbatim>\<open>Read\<close>, from the index \<open>n\<close> on. The result is the cipher and the
  slice \<open>p\<close> as the call leaves them, and what the call returns: \<open>Inr (n, err)\<close>, or
  \<open>Inl\<close> of a panic. The length \<^verbatim>\<open>len(c.output)\<close> of the array is the constant 64. The
  index expression \<^verbatim>\<open>c.output[c.nextByte]\<close> is bounds-checked by the Go runtime; the
  model keeps that check.
\<close>

function Read_loop ::
  "Cipher \<Rightarrow> byte list \<Rightarrow> nat \<Rightarrow> Cipher \<times> byte list \<times> (panic + nat \<times> go_error option)" where
  "Read_loop c p n =
     (if n < length p then
        (case (if 64 \<le> nextByte c then next_block c else (None, c)) of
           (Some err, c) \<Rightarrow> (c, p, Inr (n, Some EOF))
         | (None, c) \<Rightarrow>
             if 0 \<le> nextByte c \<and> nextByte c < 64
             then Read_loop (c\<lparr>nextByte := nextByte c + 1\<rparr>)
                    (p[n := output c ! nat (nextByte c)]) (n + 1)
             else (c, p, Inl IndexOutOfRange))
      else (c, p, Inr (n, None)))"
  by pat_completeness auto
termination
  by (relation "measure (\<lambda>(c, p, n). length p - n)") auto

declare Read_loop.simps [simp del]

definition Read :: "Cipher \<Rightarrow> byte list \<Rightarrow> Cipher \<times> byte list \<times> (panic + nat \<times> go_error option)" where
  "Read c p = Read_loop c p 0"

subsection \<open>\<^verbatim>\<open>XORKeyStream\<close>\<close>

text \<open>
  The loop of \<^verbatim>\<open>XORKeyStream\<close>, from the index \<open>i\<close> on. The method returns nothing:
  the result is \<open>Inr ()\<close>, or \<open>Inl\<close> of a panic, which is \<^verbatim>\<open>panic(err)\<close> with the error of
  \<^verbatim>\<open>next\<close>, or the runtime's when \<^verbatim>\<open>src[i]\<close> or \<^verbatim>\<open>c.output[c.nextByte]\<close> is out of
  range (\<^verbatim>\<open>dst[i]\<close> never is, by the loop condition). The cipher and \<open>dst\<close> are returned
  as the call leaves them, also when it panics. \<open>dst\<close> and \<open>src\<close> are modelled as
  separate slices; for the same slice passed twice the effect is the same, since each
  \<^verbatim>\<open>src[i]\<close> is read before \<^verbatim>\<open>dst[i]\<close> is written.
\<close>

function XOR_loop ::
  "Cipher \<Rightarrow> byte list \<Rightarrow> byte list \<Rightarrow> nat \<Rightarrow> Cipher \<times> byte list \<times> (panic + unit)" where
  "XOR_loop c dst src i =
     (if i < length dst then
        (case (if 64 \<le> nextByte c then next_block c else (None, c)) of
           (Some err, c) \<Rightarrow> (c, dst, Inl (PanicErr err))
         | (None, c) \<Rightarrow>
             if \<not> i < length src then (c, dst, Inl IndexOutOfRange)
             else if 0 \<le> nextByte c \<and> nextByte c < 64
             then XOR_loop (c\<lparr>nextByte := nextByte c + 1\<rparr>)
                    (dst[i := src ! i XOR output c ! nat (nextByte c)]) src (i + 1)
             else (c, dst, Inl IndexOutOfRange))
      else (c, dst, Inr ()))"
  by pat_completeness auto
termination
  by (relation "measure (\<lambda>(c, dst, src, i). length dst - i)") auto

declare XOR_loop.simps [simp del]

definition XORKeyStream ::
  "Cipher \<Rightarrow> byte list \<Rightarrow> byte list \<Rightarrow> Cipher \<times> byte list \<times> (panic + unit)" where
  "XORKeyStream c dst src = XOR_loop c dst src 0"

section \<open>The reference algorithm\<close>

text \<open>
  The block function as the specification describes it, on an array of sixteen words. A
  quarter round over the words at the indices \<open>a\<close>, \<open>b\<close>, \<open>c\<close>, \<open>d\<close> is
  \<^verbatim>\<open>a += b; d ^= a; d = rotl(d,16); c += d; b ^= c; b = rotl(b,12);\<close>
  \<^verbatim>\<open>a += b; d ^= a; d = rotl(d,8); c += d; b ^= c; b = rotl(b,7)\<close>.
\<close>

definition add_into :: "nat \<Rightarrow> nat \<Rightarrow> u32 list \<Rightarrow> u32 list" where
  "add_into a b x = x[a := x ! a + x ! b]"

definition xor_into :: "nat \<Rightarrow> nat \<Rightarrow> u32 list \<Rightarrow> u32 list" where
  "xor_into d a x = x[d := x ! d XOR x ! a]"

definition rotl_at :: "nat \<Rightarrow> nat \<Rightarrow> u32 list \<Rightarrow> u32 list" where
  "rotl_at d n x = x[d := word_rotl n (x ! d)]"

definition quarter_round :: "nat \<Rightarrow> nat \<Rightarrow> nat \<Rightarrow> nat \<Rightarrow> u32 list \<Rightarrow> u32 list" where
  "quarter_round a b c d x =
     rotl_at b 7 (xor_into b c (add_into c d (
     rotl_at d 8 (xor_into d a (add_into a b (
     rotl_at b 12 (xor_into b c (add_into c d (
     rotl_at d 16 (xor_into d a (add_into a b x)))))))))))"

definition column_round :: "u32 list \<Rightarrow> u32 list" where
  "column_round x =
     quarter_round 3 7 11 15 (quarter_round 2 6 10 14 (
     quarter_round 1 5 9 13 (quarter_round 0 4 8 12 x)))"

definition diagonal_round :: "u32 list \<Rightarrow> u32 list" where
  "diagonal_round x =
     quarter_round 3 4 9 14 (quarter_round 2 7 8 13 (
     quarter_round 1 6 11 12 (quarter_round 0 5 10 15 x)))"

definition double_round :: "u32 list \<Rightarrow> u32 list" where
  "double_round x = diagonal_round (column_round x)"

text \<open>The four bytes of a word, the least significant first.\<close>

definition le_bytes :: "u32 \<Rightarrow> byte list" where
  "le_bytes w = [ucast w, ucast (drop_bit 8 w), ucast (drop_bit 16 w), ucast (drop_bit 24 w)]"

text \<open>
  The block of the state \<open>st\<close> after \<open>n\<close> double rounds: the working copy is permuted,
  each of its words is added to the word of \<open>st\<close> at the same index, and the sixteen
  sums are laid out little-endian, the word \<open>i\<close> at the offset \<open>4 * i\<close>.
\<close>

definition chacha_block_ref :: "nat \<Rightarrow> u32 list \<Rightarrow> byte list" where
  "chacha_block_ref n st = concat (map le_bytes (map2 (+) ((double_round ^^ n) st) st))"

text \<open>The block counter \<^verbatim>\<open>uint64(c.input[13])<<32 | uint64(c.input[12])\<close>.\<close>

definition counter :: "Cipher \<Rightarrow> u64" where
  "counter c = push_bit 32 (ucast (input c ! 13)) OR ucast (input c ! 12)"

section \<open>Auxiliary definitions\<close>

text \<open>The local variables of \<^verbatim>\<open>next\<close> as an array, in the order of the state words.\<close>

fun list_of_vars :: "vars \<Rightarrow> u32 list" where
  "list_of_vars (a, b, c1, d, e, f, g, h, i, j, k, l, m, n, o1, p) =
     [a, b, c1, d, e, f, g, h, i, j, k, l, m, n, o1, p]"

text \<open>Storing a list of words at consecutive offsets, as \<^verbatim>\<open>next\<close> does with its sixteen sums.\<close>

primrec put_words :: "byte list \<Rightarrow> nat \<Rightarrow> u32 list \<Rightarrow> byte list" where
  "put_words buf off [] = buf"
| "put_words buf off (w # ws) = put_words (PutUint32 buf off w) (off + 4) ws"

text \<open>The cursor invariant: \<^verbatim>\<open>nextByte\<close> is an offset into the 64-byte buffer, or 64.\<close>

definition cursor_ok :: "Cipher \<Rightarrow> bool" where
  "cursor_ok c \<longleftrightarrow> 0 \<le> nextByte c \<and> nextByte c \<le> 64"


text \<open>
  The cipher that \<^verbatim>\<open>New\<close> returns for a key of 32 zero bytes, a nonce of 8 zero bytes
  and 20 rounds, and the same cipher with its block counter at the last index.
\<close>

definition zero_cipher :: Cipher where
  "zero_cipher =
     \<lparr>input = [0x61707865, 0x3320646e, 0x79622d32, 0x6b206574,
               0, 0, 0, 0, 0, 0, 0, 0, 0, 0, 0, 0],
      output = replicate 64 0, nextByte = 64, rounds = 20, eof = False\<rparr>"

definition last_block_cipher :: Cipher where
  "last_block_cipher =
     zero_cipher\<lparr>input := (input zero_cipher)[12 := 0xFFFFFFFF, 13 := 0xFFFFFFFF]\<rparr>"

text \<open>
  The rotation of a 32-bit value to the left, on \<open>int\<close>: how the simplifier computes a
  block on numerals.
\<close>

definition rotl_int :: "nat \<Rightarrow> int \<Rightarrow> int" where
  "rotl_int n t = (t * 2 ^ n) mod 4294967296 OR t div 2 ^ (32 - n)"


text \<open>The word that \<^verbatim>\<open>binary.LittleEndian.Uint32(b[k:])\<close> returns when \<open>b\<close> is long enough.\<close>

definition le32 :: "byte list \<Rightarrow> nat \<Rightarrow> u32" where
  "le32 b k = ucast (b ! k) OR push_bit 8 (ucast (b ! (k + 1)))
              OR push_bit 16 (ucast (b ! (k + 2))) OR push_bit 24 (ucast (b ! (k + 3)))"


text \<open>
  What the operations leave alone: the round count and the state words other than the
  two counter words. \<open>reachable c0 c\<close>: the cipher \<open>c\<close> is \<open>c0\<close> after any number
  of calls of \<^verbatim>\<open>Read\<close>, \<^verbatim>\<open>XORKeyStream\<close> (also calls that panic) and \<^verbatim>\<open>Seek\<close>.
\<close>

definition same_params :: "Cipher \<Rightarrow> Cipher \<Rightarrow> bool" where
  "same_params c0 c \<longleftrightarrow>
     wf_Cipher c \<and> rounds c = rounds c0 \<and>
     take 12 (input c) = take 12 (input c0) \<and> drop 14 (input c) = drop 14 (input c0)"

inductive reachable :: "Cipher \<Rightarrow> Cipher \<Rightarrow> bool" for c0 :: Cipher where
  start: "reachable c0 c0"
| read: "reachable c0 c \<Longrightarrow> reachable c0 (fst (Read c p))"
| xor: "reachable c0 c \<Longrightarrow> reachable c0 (fst (XORKeyStream c dst src))"
| seek: "reachable c0 c \<Longrightarrow> reachable c0 (Seek c n)"

section \<open>The loop of the block function\<close>

text \<open>Go's \<^verbatim>\<open>(t << n) | (t >> (32 - n))\<close> is the rotation to the left by \<open>n\<close>.\<close>

lemma rotl_shift_gen:
  fixes t :: u32
  assumes "0 < k" and "k < 32"
  shows "push_bit k t OR drop_bit (32 - k) t = word_rotl k t"
proof (rule bit_word_eqI)
  fix n :: nat
  assume n: "n < LENGTH(32)"
  show "bit (push_bit k t OR drop_bit (32 - k) t) n = bit (word_rotl k t) n"
  proof (cases "k \<le> n")
    case True
    with n assms have m: "(n + (32 - k)) mod 32 = n - k"
      by (simp add: mod_if)
    from True n assms have "\<not> bit t (32 - k + n)"
      by (auto dest: bit_imp_le_length)
    with True n assms m show ?thesis
      by (simp add: bit_simps)
  next
    case False
    with n assms have m: "(n + (32 - k)) mod 32 = 32 - k + n"
      by simp
    with False n assms show ?thesis
      by (simp add: bit_simps)
  qed
qed

lemma rotl_shift:
  fixes t :: u32
  shows "push_bit 16 t OR drop_bit 16 t = word_rotl 16 t"
    and "push_bit 12 t OR drop_bit 20 t = word_rotl 12 t"
    and "push_bit 8 t OR drop_bit 24 t = word_rotl 8 t"
    and "push_bit 7 t OR drop_bit 25 t = word_rotl 7 t"
  using rotl_shift_gen [of 16 t] rotl_shift_gen [of 12 t] rotl_shift_gen [of 8 t]
    rotl_shift_gen [of 7 t]
  by simp_all

text \<open>
  One pass through the loop body is one double round of the reference: the column round
  on the index groups (0,4,8,12), (1,5,9,13), (2,6,10,14), (3,7,11,15), then the diagonal
  round on (0,5,10,15), (1,6,11,12), (2,7,8,13), (3,4,9,14).
\<close>

lemma loop_body_double_round:
  "list_of_vars (loop_body v) = double_round (list_of_vars v)"
proof (cases v rule: list_of_vars.cases)
  case (1 a b c1 d e f g h i j k l m n o1 p)
  show ?thesis
    unfolding 1
    by (simp add: loop_body_def double_round_def column_round_def diagonal_round_def
        quarter_round_def add_into_def xor_into_def rotl_at_def Let_def rotl_shift)
qed

text \<open>The loop runs \<open>\<lceil>z / 2\<rceil>\<close> times for a positive \<open>z\<close>, and not at all otherwise.\<close>

lemma next_loop_funpow: "next_loop z v = (loop_body ^^ nat ((z + 1) div 2)) v"
proof (induction z v rule: next_loop.induct)
  case (1 z v)
  show ?case
  proof (cases "0 < z")
    case True
    then have "nat ((z + 1) div 2) = Suc (nat ((z - 2 + 1) div 2))"
      by simp
    with True "1.IH" show ?thesis
      by (simp add: next_loop.simps [of z] funpow_swap1)
  next
    case False
    then show ?thesis
      by (simp add: next_loop.simps [of z])
  qed
qed

lemma list_of_vars_funpow:
  "list_of_vars ((loop_body ^^ n) v) = (double_round ^^ n) (list_of_vars v)"
  by (induction n) (simp_all add: loop_body_double_round)


section \<open>Feed-forward and serialisation\<close>

lemma PutUint32_take_drop:
  assumes "off + 4 \<le> length buf"
  shows "PutUint32 buf off v = take off buf @ le_bytes v @ drop (off + 4) buf"
  using assms
  by (simp add: PutUint32_def le_bytes_def list_eq_iff_nth_eq nth_list_update nth_append nth_Cons')


lemma length_PutUint32 [simp]: "length (PutUint32 buf off v) = length buf"
  by (simp add: PutUint32_def)

lemma length_le_bytes [simp]: "length (le_bytes w) = 4"
  by (simp add: le_bytes_def)

lemma length_concat_le_bytes [simp]: "length (concat (map le_bytes ws)) = 4 * length ws"
  by (induction ws) simp_all

lemma put_words_take_drop:
  "off + 4 * length ws \<le> length buf \<Longrightarrow>
   put_words buf off ws =
     take off buf @ concat (map le_bytes ws) @ drop (off + 4 * length ws) buf"
proof (induction ws arbitrary: buf off)
  case Nil
  then show ?case by simp
next
  case (Cons w ws)
  let ?b = "PutUint32 buf off w"
  from Cons.prems have le: "off + 4 \<le> length buf"
    by simp
  have b: "?b = take off buf @ le_bytes w @ drop (off + 4) buf"
    using le by (rule PutUint32_take_drop)
  from Cons.prems have "off + 4 + 4 * length ws \<le> length ?b"
    by simp
  then have "put_words ?b (off + 4) ws =
      take (off + 4) ?b @ concat (map le_bytes ws) @ drop (off + 4 + 4 * length ws) ?b"
    by (rule Cons.IH)
  moreover have "take (off + 4) ?b = take off buf @ le_bytes w"
    using le by (simp add: b)
  moreover have "drop (off + 4 + 4 * length ws) ?b = drop (off + 4 * length (w # ws)) buf"
    using le by (simp add: b ac_simps)
  ultimately show ?case
    by simp
qed

lemma put_words_all:
  "length buf = 4 * length ws \<Longrightarrow> put_words buf 0 ws = concat (map le_bytes ws)"
  by (simp add: put_words_take_drop)

lemma length16_explicit:
  assumes "length (xs :: 'a list) = 16"
  obtains x0 x1 x2 x3 x4 x5 x6 x7 x8 x9 x10 x11 x12 x13 x14 x15
  where "xs = [x0, x1, x2, x3, x4, x5, x6, x7, x8, x9, x10, x11, x12, x13, x14, x15]"
  using assms by (auto simp add: eval_nat_numeral length_Suc_conv)



section \<open>The block function as a whole\<close>

lemma counter_roundtrip:
  fixes ctr :: u64
  shows "push_bit 32 (ucast (ucast (drop_bit 32 ctr) :: u32)) OR ucast (ucast ctr :: u32) = ctr"
  by (rule bit_word_eqI) (auto simp add: bit_simps)

lemma next_block_eof: "eof c \<Longrightarrow> next_block c = (Some ExhaustedKeystream, c)"
  by (simp add: next_block_def)

lemma next_block_ok:
  assumes wf: "wf_Cipher c" and ne: "\<not> eof c"
  shows "next_block c =
    (None, c\<lparr>input := (input c)[12 := ucast (counter c + 1),
                                 13 := ucast (drop_bit 32 (counter c + 1))],
             output := chacha_block_ref (nat ((rounds c + 1) div 2)) (input c),
             nextByte := 0,
             eof := (counter c + 1 = 0)\<rparr>)"
proof -
  from wf have len: "length (input c) = 16" and lo: "length (output c) = 64"
    by (simp_all add: wf_Cipher_def)
  from len obtain x0 x1 x2 x3 x4 x5 x6 x7 x8 x9 x10 x11 x12 x13 x14 x15
    where inp: "input c = [x0, x1, x2, x3, x4, x5, x6, x7, x8, x9, x10, x11, x12, x13, x14, x15]"
    by (rule length16_explicit)
  let ?v0 = "(x0, x1, x2, x3, x4, x5, x6, x7, x8, x9, x10, x11, x12, x13, x14, x15)"
  let ?n = "nat ((rounds c + 1) div 2)"
  obtain a b c1 d e f g h i j k l m n o1 p
    where v: "next_loop (rounds c) ?v0 = (a, b, c1, d, e, f, g, h, i, j, k, l, m, n, o1, p)"
    by (cases "next_loop (rounds c) ?v0" rule: list_of_vars.cases)
  have "list_of_vars (next_loop (rounds c) ?v0) = (double_round ^^ ?n) (input c)"
    by (simp add: next_loop_funpow list_of_vars_funpow inp)
  then have dr: "(double_round ^^ ?n) (input c) = [a, b, c1, d, e, f, g, h, i, j, k, l, m, n, o1, p]"
    by (simp add: v)
  let ?ws = "[a + x0, b + x1, c1 + x2, d + x3, e + x4, f + x5, g + x6, h + x7,
              i + x8, j + x9, k + x10, l + x11, m + x12, n + x13, o1 + x14, p + x15]"
  have ref: "chacha_block_ref ?n (input c) = concat (map le_bytes ?ws)"
    unfolding chacha_block_ref_def dr by (simp add: inp)
  have "put_words (output c) 0 ?ws = concat (map le_bytes ?ws)"
    by (rule put_words_all) (simp add: lo)
  then have out: "chacha_block_ref ?n (input c) =
      PutUint32 (PutUint32 (PutUint32 (PutUint32 (PutUint32 (PutUint32 (PutUint32 (PutUint32
     (PutUint32 (PutUint32 (PutUint32 (PutUint32 (PutUint32 (PutUint32 (PutUint32 (PutUint32
        (output c) 0 (a + x0)) 4 (b + x1)) 8 (c1 + x2)) 12 (d + x3)) 16 (e + x4)) 20 (f + x5))
        24 (g + x6)) 28 (h + x7)) 32 (i + x8)) 36 (j + x9)) 40 (k + x10)) 44 (l + x11))
        48 (m + x12)) 52 (n + x13)) 56 (o1 + x14)) 60 (p + x15)"
    by (simp add: ref)
  show ?thesis
    using ne unfolding next_block_def out counter_def
    by (simp add: inp v Let_def)
qed


lemma next_block_shape:
  assumes "\<not> eof c"
  shows "next_block c =
    (None, c\<lparr>input := (input c)[12 := ucast (counter c + 1),
                                 13 := ucast (drop_bit 32 (counter c + 1))],
             output := output (snd (next_block c)), nextByte := 0,
             eof := (counter c + 1 = 0)\<rparr>)"
proof -
  let ?v0 = "(input c ! 0, input c ! 1, input c ! 2, input c ! 3, input c ! 4, input c ! 5,
    input c ! 6, input c ! 7, input c ! 8, input c ! 9, input c ! 10, input c ! 11,
    input c ! 12, input c ! 13, input c ! 14, input c ! 15)"
  obtain a b c1 d e f g h i j k l m n o1 p
    where v: "next_loop (rounds c) ?v0 = (a, b, c1, d, e, f, g, h, i, j, k, l, m, n, o1, p)"
    by (cases "next_loop (rounds c) ?v0" rule: list_of_vars.cases)
  show ?thesis
    using assms unfolding next_block_def counter_def
    by (simp add: v [unfolded One_nat_def] Let_def)
qed

lemma next_block_fst: "fst (next_block c) = (if eof c then Some ExhaustedKeystream else None)"
proof (cases "eof c")
  case True
  then show ?thesis by (simp add: next_block_eof)
next
  case False
  then show ?thesis by (subst next_block_shape) simp_all
qed

lemma next_block_nextByte:
  "nextByte (snd (next_block c)) = (if eof c then nextByte c else 0)"
proof (cases "eof c")
  case True
  then show ?thesis by (simp add: next_block_eof)
next
  case False
  then show ?thesis by (subst next_block_shape) simp_all
qed

lemma next_block_rounds: "rounds (snd (next_block c)) = rounds c"
proof (cases "eof c")
  case True
  then show ?thesis by (simp add: next_block_eof)
next
  case False
  then show ?thesis by (subst next_block_shape) simp_all
qed

lemma length_add_into [simp]: "length (add_into a b x) = length x"
  by (simp add: add_into_def)

lemma length_xor_into [simp]: "length (xor_into d a x) = length x"
  by (simp add: xor_into_def)

lemma length_rotl_at [simp]: "length (rotl_at d n x) = length x"
  by (simp add: rotl_at_def)

lemma length_quarter_round [simp]: "length (quarter_round a b c d x) = length x"
  by (simp add: quarter_round_def)

lemma length_double_round [simp]: "length (double_round x) = length x"
  by (simp add: double_round_def column_round_def diagonal_round_def)

lemma length_double_round_funpow [simp]: "length ((double_round ^^ n) st) = length st"
  by (induction n) simp_all

lemma length_chacha_block_ref [simp]: "length (chacha_block_ref n st) = 4 * length st"
  unfolding chacha_block_ref_def
  by (simp only: length_concat_le_bytes length_map length_zip length_double_round_funpow min.idem)

lemma wf_next_block: "wf_Cipher c \<Longrightarrow> wf_Cipher (snd (next_block c))"
  by (cases "eof c") (simp_all add: next_block_eof next_block_ok, simp add: wf_Cipher_def)


section \<open>The loops of \<^verbatim>\<open>Read\<close> and \<^verbatim>\<open>XORKeyStream\<close>, step by step\<close>

lemma Read_loop_done: "\<not> n < length p \<Longrightarrow> Read_loop c p n = (c, p, Inr (n, None))"
  by (simp add: Read_loop.simps [of c p n])

lemma Read_loop_buffered:
  "n < length p \<Longrightarrow> 0 \<le> nextByte c \<Longrightarrow> nextByte c < 64 \<Longrightarrow>
   Read_loop c p n =
     Read_loop (c\<lparr>nextByte := nextByte c + 1\<rparr>) (p[n := output c ! nat (nextByte c)]) (n + 1)"
  by (simp add: Read_loop.simps [of c p n])

lemma Read_loop_exhausted:
  "n < length p \<Longrightarrow> 64 \<le> nextByte c \<Longrightarrow> eof c \<Longrightarrow>
   Read_loop c p n = (c, p, Inr (n, Some EOF))"
  by (simp add: Read_loop.simps [of c p n] next_block_eof)

lemma Read_loop_refill:
  assumes "n < length p" and "64 \<le> nextByte c" and "\<not> eof c"
  shows "Read_loop c p n = Read_loop (snd (next_block c)) p n"
proof -
  obtain c' where c': "next_block c = (None, c')"
    using next_block_fst [of c] assms(3) by (cases "next_block c") simp
  have nb: "nextByte c' = 0"
    using next_block_nextByte [of c] assms(3) c' by simp
  show ?thesis
    using assms nb
    by (simp add: Read_loop.simps [of c p n] Read_loop.simps [of c' p n] c')
qed


lemma XOR_loop_done: "\<not> i < length dst \<Longrightarrow> XOR_loop c dst src i = (c, dst, Inr ())"
  by (simp add: XOR_loop.simps [of c dst src i])

lemma XOR_loop_buffered:
  "i < length dst \<Longrightarrow> 0 \<le> nextByte c \<Longrightarrow> nextByte c < 64 \<Longrightarrow>
   XOR_loop c dst src i =
     (if i < length src
      then XOR_loop (c\<lparr>nextByte := nextByte c + 1\<rparr>)
             (dst[i := src ! i XOR output c ! nat (nextByte c)]) src (i + 1)
      else (c, dst, Inl IndexOutOfRange))"
  by (simp add: XOR_loop.simps [of c dst src i])

lemma XOR_loop_exhausted:
  "i < length dst \<Longrightarrow> 64 \<le> nextByte c \<Longrightarrow> eof c \<Longrightarrow>
   XOR_loop c dst src i = (c, dst, Inl (PanicErr ExhaustedKeystream))"
  by (simp add: XOR_loop.simps [of c dst src i] next_block_eof)

lemma XOR_loop_refill:
  assumes "i < length dst" and "64 \<le> nextByte c" and "\<not> eof c"
  shows "XOR_loop c dst src i = XOR_loop (snd (next_block c)) dst src i"
proof -
  obtain c' where c': "next_block c = (None, c')"
    using next_block_fst [of c] assms(3) by (cases "next_block c") simp
  have nb: "nextByte c' = 0"
    using next_block_nextByte [of c] assms(3) c' by simp
  show ?thesis
    using assms nb
    by (simp add: XOR_loop.simps [of c dst src i] XOR_loop.simps [of c' dst src i] c')
qed

lemma Read_loop_invariant:
  assumes step: "\<And>c. I c \<Longrightarrow> I (snd (next_block c))"
    and serve: "\<And>c. I c \<Longrightarrow> 0 \<le> nextByte c \<Longrightarrow> nextByte c < 64 \<Longrightarrow>
                  I (c\<lparr>nextByte := nextByte c + 1\<rparr>)"
  shows "I c \<Longrightarrow> I (fst (Read_loop c p n))"
proof (induction c p n rule: Read_loop.induct)
  case (1 c p n)
  let ?r = "if 64 \<le> nextByte c then next_block c else (None, c)"
  have I': "I (snd ?r)"
    using "1.prems" step by simp
  show ?case
  proof (cases "n < length p")
    case False
    then show ?thesis
      using "1.prems" by (simp add: Read_loop_done)
  next
    case True
    obtain err c' where r: "?r = (err, c')"
      by (cases ?r)
    with I' have c': "I c'"
      by simp
    show ?thesis
    proof (cases err)
      case (Some e)
      with True r c' show ?thesis
        by (simp add: Read_loop.simps [of c p n])
    next
      case None
      show ?thesis
      proof (cases "0 \<le> nextByte c' \<and> nextByte c' < 64")
        case bad: False
        with True r None c' show ?thesis
          by (auto simp add: Read_loop.simps [of c p n])
      next
        case ok: True
        then have "I (c'\<lparr>nextByte := nextByte c' + 1\<rparr>)"
          using c' serve by simp
        then have "I (fst (Read_loop (c'\<lparr>nextByte := nextByte c' + 1\<rparr>)
            (p[n := output c' ! nat (nextByte c')]) (n + 1)))"
          using "1.IH" [OF True r [symmetric] None ok] by simp
        with True r None ok show ?thesis
          by (simp add: Read_loop.simps [of c p n])
      qed
    qed
  qed
qed

section \<open>Two concrete ciphers\<close>

lemma New_zero: "New (replicate 32 0) (replicate 8 0) 20 = Inr zero_cipher"
  by (simp add: New_def Uint32_at_def slice_from_def Uint32_def bind_panic_def new_Cipher_def
      zero_cipher_def eval_nat_numeral)

lemma wf_zero_cipher: "wf_Cipher zero_cipher"
  by (simp add: wf_Cipher_def zero_cipher_def)

lemma wf_last_block_cipher: "wf_Cipher last_block_cipher"
  by (simp add: wf_Cipher_def last_block_cipher_def zero_cipher_def)

lemma counter_last_block_cipher: "counter last_block_cipher = 0xFFFFFFFFFFFFFFFF"
  by (simp add: counter_def last_block_cipher_def zero_cipher_def)

section \<open>The block counter\<close>

lemma u64_succ_zero: "(x :: u64) + 1 = 0 \<longleftrightarrow> x = 0xFFFFFFFFFFFFFFFF"
proof -
  have "x + 1 = 0 \<longleftrightarrow> x = - 1"
    by (rule eq_neg_iff_add_eq_0 [symmetric])
  moreover have "(- 1 :: u64) = 0xFFFFFFFFFFFFFFFF"
    by simp
  ultimately show ?thesis
    by (simp only:)
qed

lemma counter_next_block:
  assumes "wf_Cipher c" and "\<not> eof c"
  shows "counter (snd (next_block c)) = counter c + 1"
  using assms
  by (simp add: next_block_ok wf_Cipher_def counter_def counter_roundtrip)

section \<open>Construction\<close>

lemma Uint32_at_eq:
  "Uint32_at b k =
     (if length b < k then Inl SliceBoundsOutOfRange
      else if length b < k + 4 then Inl IndexOutOfRange
      else Inr (le32 b k))"
  by (auto simp add: Uint32_at_def bind_panic_def slice_from_def Uint32_def le32_def add.commute)

lemma New_short_key: "length key < 32 \<Longrightarrow> New key iv r = Inl IndexOutOfRange"
  by (simp add: New_def Uint32_at_eq bind_panic_def)

lemma New_short_iv:
  "32 \<le> length key \<Longrightarrow> length iv < 8 \<Longrightarrow> New key iv r = Inl IndexOutOfRange"
  by (simp add: New_def Uint32_at_eq bind_panic_def)

lemma New_long:
  assumes "32 \<le> length key" and "8 \<le> length iv"
  shows "New key iv r =
    Inr \<lparr>input = [0x61707865, 0x3320646e, 0x79622d32, 0x6b206574,
                  le32 key 0, le32 key 4, le32 key 8, le32 key 12,
                  le32 key 16, le32 key 20, le32 key 24, le32 key 28,
                  0, 0, le32 iv 0, le32 iv 4],
         output = replicate 64 0, nextByte = 64, rounds = r, eof = False\<rparr>"
  using assms
  by (simp add: New_def Uint32_at_eq bind_panic_def new_Cipher_def eval_nat_numeral)

lemma le32_take: "k + 4 \<le> n \<Longrightarrow> le32 (take n b) k = le32 b k"
  by (simp add: le32_def)



lemma New_Inr_lengths:
  assumes "New key iv r = Inr c0"
  shows "32 \<le> length key" and "8 \<le> length iv"
  using assms New_short_key [of key iv r] New_short_iv [of key iv r]
  by (auto simp add: not_less [symmetric])

lemma New_Inr_fields:
  assumes "New key iv r = Inr c0"
  shows "wf_Cipher c0" and "\<not> eof c0" and "nextByte c0 = 64" and "rounds c0 = r"
    and "(input c0)[12 := 0, 13 := 0] = input c0"
  using assms New_long [OF New_Inr_lengths [OF assms], of r]
  by (auto simp add: wf_Cipher_def)

section \<open>Computing a block on numerals\<close>

text \<open>
  The steps of the reference on \<open>int\<close>, where the simplifier computes with numerals, and
  the ten double rounds of the state of \<open>zero_cipher\<close>.
\<close>

lemma woi_mod: "(word_of_int (k mod 4294967296) :: u32) = word_of_int k"
  by (simp add: word_of_int_eq_iff take_bit_eq_mod)

lemma push_bit_woi: "push_bit n (w :: u32) = word_of_int ((uint w * 2 ^ n) mod 4294967296)"
  by (simp add: woi_mod push_bit_eq_mult)

lemma drop_bit_woi: "drop_bit n (w :: u32) = word_of_int (uint w div 2 ^ n)"
proof -
  have "take_bit 32 (uint w) = uint w"
    using uint_word_of_int_eq [of "uint w", where ?'a = 32] by (simp add: word_of_int_uint)
  then have "uint (drop_bit n w) = uint w div 2 ^ n"
    using unsigned_drop_bit_eq [of n w, where ?'a = int] by (simp add: drop_bit_eq_div)
  then show ?thesis
    by (metis word_of_int_uint)
qed

lemma word_rotl_int:
  fixes w :: u32
  assumes "0 < n" "n < 32"
  shows "word_rotl n w = word_of_int (rotl_int n (uint w))"
  unfolding rotl_shift_gen [OF assms, symmetric] rotl_int_def
  by (simp only: push_bit_woi [of n w] drop_bit_woi [of "32 - n" w] of_int_or_eq)

lemma add_into_eval:
  "add_into a b x = x[a := word_of_int ((uint (x ! a) + uint (x ! b)) mod 4294967296)]"
  by (simp add: add_into_def woi_mod)

lemma xor_into_eval:
  "xor_into d a x = x[d := word_of_int (uint (x ! d) XOR uint (x ! a))]"
  by (metis xor_into_def uint_xor word_of_int_uint)

lemma rotl_at_eval:
  "0 < n \<Longrightarrow> n < 32 \<Longrightarrow> rotl_at d n x = x[d := word_of_int (rotl_int n (uint (x ! d)))]"
  by (simp add: rotl_at_def word_rotl_int)

lemmas double_round_eval =
  double_round_def column_round_def diagonal_round_def quarter_round_def
  add_into_eval xor_into_eval rotl_at_eval rotl_int_def

lemma dr0: "double_round [1634760805, 857760878, 2036477234, 1797285236, 0, 0, 0, 0, 0, 0, 0, 0, 0, 0, 0, 0] =
  [3831485001, 465051814, 3810167018, 3865553406, 708572787, 2260680856, 1175146506, 4195784838, 1401801230, 205755969, 16389820, 2315813162, 1807715081, 3274707926, 3147798601, 2277908837]"
  by (simp add: double_round_eval)

lemma dr1: "double_round [3831485001, 465051814, 3810167018, 3865553406, 708572787, 2260680856, 1175146506, 4195784838, 1401801230, 205755969, 16389820, 2315813162, 1807715081, 3274707926, 3147798601, 2277908837] =
  [2987265446, 555851331, 2043056534, 2394542343, 683648334, 243939487, 2031723700, 842999353, 1769110809, 317167340, 3515309448, 1613476332, 1612483213, 416233319, 1624313532, 397031114]"
  by (simp add: double_round_eval)

lemma dr2: "double_round [2987265446, 555851331, 2043056534, 2394542343, 683648334, 243939487, 2031723700, 842999353, 1769110809, 317167340, 3515309448, 1613476332, 1612483213, 416233319, 1624313532, 397031114] =
  [42443425, 3537648111, 4075615518, 3280431870, 2457253921, 936163239, 535217241, 3858322967, 3618735395, 2694131698, 320827381, 1865984460, 1547860575, 496143739, 4107449562, 442763396]"
  by (simp add: double_round_eval)

lemma dr3: "double_round [42443425, 3537648111, 4075615518, 3280431870, 2457253921, 936163239, 535217241, 3858322967, 3618735395, 2694131698, 320827381, 1865984460, 1547860575, 496143739, 4107449562, 442763396] =
  [3464398809, 2736782107, 1867918925, 914662315, 3272508460, 998218446, 2296453912, 505049583, 1927367832, 1097802169, 1733510303, 425094469, 2739030577, 28346074, 3103619896, 1123945486]"
  by (simp add: double_round_eval)

lemma dr4: "double_round [3464398809, 2736782107, 1867918925, 914662315, 3272508460, 998218446, 2296453912, 505049583, 1927367832, 1097802169, 1733510303, 425094469, 2739030577, 28346074, 3103619896, 1123945486] =
  [1308838156, 2549006073, 4135762692, 793240496, 1354003995, 3934035184, 3013862787, 3854227624, 1335860601, 1156916115, 2881466214, 1593652346, 2985647285, 85002989, 1444698375, 3558679988]"
  by (simp add: double_round_eval)

lemma dr5: "double_round [1308838156, 2549006073, 4135762692, 793240496, 1354003995, 3934035184, 3013862787, 3854227624, 1335860601, 1156916115, 2881466214, 1593652346, 2985647285, 85002989, 1444698375, 3558679988] =
  [153779254, 551088281, 2573988431, 1784856811, 3150129412, 343203913, 2777219198, 1595256366, 2046321669, 3236133586, 875096108, 2039282348, 748642874, 426368672, 803736417, 3190166337]"
  by (simp add: double_round_eval)

lemma dr6: "double_round [153779254, 551088281, 2573988431, 1784856811, 3150129412, 343203913, 2777219198, 1595256366, 2046321669, 3236133586, 875096108, 2039282348, 748642874, 426368672, 803736417, 3190166337] =
  [1843350424, 1608384784, 3655185970, 1947739403, 3718507033, 1188705781, 838547146, 1894081315, 1188398960, 3234391270, 3125483095, 3295685470, 2940917475, 3868489986, 646047163, 674516562]"
  by (simp add: double_round_eval)

lemma dr7: "double_round [1843350424, 1608384784, 3655185970, 1947739403, 3718507033, 1188705781, 838547146, 1894081315, 1188398960, 3234391270, 3125483095, 3295685470, 2940917475, 3868489986, 646047163, 674516562] =
  [4142613381, 256929999, 2185938132, 4278346116, 1910216669, 1624086861, 2910867510, 2312475086, 2656191475, 382791205, 2196319126, 3503982164, 1805033478, 1199192055, 3527735948, 2991348835]"
  by (simp add: double_round_eval)

lemma dr8: "double_round [4142613381, 256929999, 2185938132, 4278346116, 1910216669, 1624086861, 2910867510, 2312475086, 2656191475, 382791205, 2196319126, 3503982164, 1805033478, 1199192055, 3527735948, 2991348835] =
  [172609723, 4252221419, 3259208404, 3775952493, 2081980761, 957320013, 170075935, 235214466, 1531487041, 140632055, 1563676091, 399783725, 3319306763, 2649833516, 2961880544, 2236122496]"
  by (simp add: double_round_eval)

lemma dr9: "double_round [172609723, 4252221419, 3259208404, 3775952493, 2081980761, 957320013, 170075935, 235214466, 1531487041, 140632055, 1563676091, 399783725, 3319306763, 2649833516, 2961880544, 2236122496] =
  [1282424849, 1562217778, 1812475918, 3181191391, 3088700093, 451775904, 3438229160, 3339548555, 2086224346, 2370328401, 1071654007, 927652024, 4105716586, 480319509, 1773569987, 2254827186]"
  by (simp add: double_round_eval)


lemma double_round_10_zero:
  "(double_round ^^ 10) [1634760805, 857760878, 2036477234, 1797285236, 0, 0, 0, 0, 0, 0, 0, 0, 0, 0, 0, 0] =
   [1282424849, 1562217778, 1812475918, 3181191391, 3088700093, 451775904, 3438229160, 3339548555, 2086224346, 2370328401, 1071654007, 927652024, 4105716586, 480319509, 1773569987, 2254827186]"
  by (simp add: eval_nat_numeral dr0 dr1 dr2 dr3 dr4 dr5 dr6 dr7 dr8 dr9)

lemma block_zero:
  "chacha_block_ref 10 (input zero_cipher) =
   [0x76, 0xb8, 0xe0, 0xad, 0xa0, 0xf1, 0x3d, 0x90, 0x40, 0x5d, 0x6a, 0xe5, 0x53, 0x86, 0xbd, 0x28, 0xbd, 0xd2, 0x19, 0xb8, 0xa0, 0x8d, 0xed, 0x1a, 0xa8, 0x36, 0xef, 0xcc, 0x8b, 0x77, 0x0d, 0xc7, 0xda, 0x41, 0x59, 0x7c, 0x51, 0x57, 0x48, 0x8d, 0x77, 0x24, 0xe0, 0x3f, 0xb8, 0xd8, 0x4a, 0x37, 0x6a, 0x43, 0xb8, 0xf4, 0x15, 0x18, 0xa1, 0x1c, 0xc3, 0x87, 0xb6, 0x69, 0xb2, 0xee, 0x65, 0x86]"
  unfolding chacha_block_ref_def zero_cipher_def
  by (simp add: double_round_10_zero le_bytes_def)

section \<open>What \<^verbatim>\<open>Read\<close> returns\<close>

lemma Read_loop_drain:
  assumes "0 \<le> nextByte c" and "nextByte c + int k \<le> 64" and "n + k \<le> length p"
    and "length (output c) = 64"
  shows "Read_loop c p n =
    Read_loop (c\<lparr>nextByte := nextByte c + int k\<rparr>)
      (take n p @ take k (drop (nat (nextByte c)) (output c)) @ drop (n + k) p) (n + k)"
  using assms
proof (induction k arbitrary: c p n)
  case 0
  then show ?case by simp
next
  case (Suc k)
  let ?b = "output c ! nat (nextByte c)"
  let ?c1 = "c\<lparr>nextByte := nextByte c + 1\<rparr>"
  let ?p1 = "p[n := ?b]"
  from Suc.prems have n: "n < length p" and nb: "nextByte c < 64" "nat (nextByte c) < length (output c)"
    by simp_all
  have "Read_loop c p n = Read_loop ?c1 ?p1 (n + 1)"
    using n Suc.prems(1) nb(1) by (rule Read_loop_buffered)
  also have "\<dots> = Read_loop (?c1\<lparr>nextByte := nextByte ?c1 + int k\<rparr>)
      (take (n + 1) ?p1 @ take k (drop (nat (nextByte ?c1)) (output ?c1)) @ drop (n + 1 + k) ?p1)
      (n + 1 + k)"
    using Suc.prems by (intro Suc.IH) simp_all
  also have "?c1\<lparr>nextByte := nextByte ?c1 + int k\<rparr> = c\<lparr>nextByte := nextByte c + int (Suc k)\<rparr>"
    by (simp add: add.assoc)
  also have "take (n + 1) ?p1 = take n p @ [?b]"
    using n by (simp add: take_Suc_conv_app_nth)
  also have "drop (n + 1 + k) ?p1 = drop (n + Suc k) p"
    by simp
  also have "nat (nextByte ?c1) = Suc (nat (nextByte c))"
    using Suc.prems(1) by simp
  also have "(take n p @ [?b]) @ take k (drop (Suc (nat (nextByte c))) (output ?c1)) @ drop (n + Suc k) p
      = take n p @ take (Suc k) (drop (nat (nextByte c)) (output c)) @ drop (n + Suc k) p"
    using nb(2) by (simp add: Cons_nth_drop_Suc [symmetric])
  finally show ?case
    by simp
qed

lemma Read_buffered_all:
  assumes "0 \<le> nextByte c" and "nextByte c + int (length p) \<le> 64" and "length (output c) = 64"
  shows "Read c p =
    (c\<lparr>nextByte := nextByte c + int (length p)\<rparr>,
     take (length p) (drop (nat (nextByte c)) (output c)), Inr (length p, None))"
  using Read_loop_drain [of c "length p" 0 p] assms
  by (simp add: Read_def Read_loop_done)

lemma Read_exhausted_partial:
  assumes "0 \<le> nextByte c" and "nextByte c \<le> 64" and "length (output c) = 64"
    and "eof c" and "nat (64 - nextByte c) < length p"
  shows "Read c p =
    (c\<lparr>nextByte := 64\<rparr>,
     take (nat (64 - nextByte c)) (drop (nat (nextByte c)) (output c))
       @ drop (nat (64 - nextByte c)) p,
     Inr (nat (64 - nextByte c), Some EOF))"
proof -
  let ?k = "nat (64 - nextByte c)"
  have "Read c p = Read_loop (c\<lparr>nextByte := nextByte c + int ?k\<rparr>)
      (take 0 p @ take ?k (drop (nat (nextByte c)) (output c)) @ drop (0 + ?k) p) (0 + ?k)"
    unfolding Read_def using assms by (intro Read_loop_drain) simp_all
  also have "nextByte c + int ?k = 64"
    using assms(2) by simp
  finally show ?thesis
    using assms by (simp add: Read_loop_exhausted)
qed

lemma Read_refill:
  assumes "p \<noteq> []" and "64 \<le> nextByte c" and "\<not> eof c"
  shows "Read c p = Read (snd (next_block c)) p"
  using assms by (simp add: Read_def Read_loop_refill)


lemma Read_across_block:
  assumes "0 \<le> nextByte c" and "nextByte c \<le> 64" and "length (output c) = 64"
    and "\<not> eof c" and "nat (64 - nextByte c) < length p"
  shows "Read c p =
    Read_loop (snd (next_block (c\<lparr>nextByte := 64\<rparr>)))
      (take (nat (64 - nextByte c)) (drop (nat (nextByte c)) (output c))
         @ drop (nat (64 - nextByte c)) p)
      (nat (64 - nextByte c))"
proof -
  let ?k = "nat (64 - nextByte c)"
  let ?p = "take ?k (drop (nat (nextByte c)) (output c)) @ drop ?k p"
  have "Read c p = Read_loop (c\<lparr>nextByte := nextByte c + int ?k\<rparr>)
      (take 0 p @ take ?k (drop (nat (nextByte c)) (output c)) @ drop (0 + ?k) p) (0 + ?k)"
    unfolding Read_def using assms by (intro Read_loop_drain) simp_all
  also have "nextByte c + int ?k = 64"
    using assms(2) by simp
  finally have "Read c p = Read_loop (c\<lparr>nextByte := 64\<rparr>) ?p ?k"
    by simp
  also have "\<dots> = Read_loop (snd (next_block (c\<lparr>nextByte := 64\<rparr>))) ?p ?k"
    using assms by (intro Read_loop_refill) simp_all
  finally show ?thesis .
qed

section \<open>The cursor\<close>

lemma cursor_ok_next_block: "cursor_ok c \<Longrightarrow> cursor_ok (snd (next_block c))"
  by (simp add: cursor_ok_def next_block_nextByte)

lemma cursor_ok_serve:
  "cursor_ok c \<Longrightarrow> 0 \<le> nextByte c \<Longrightarrow> nextByte c < 64 \<Longrightarrow>
   cursor_ok (c\<lparr>nextByte := nextByte c + 1\<rparr>)"
  by (simp add: cursor_ok_def)

lemma nextByte_Seek: "nextByte (Seek c n) = 0"
  by (simp add: Seek_def next_block_nextByte)

lemma XOR_loop_invariant:
  assumes step: "\<And>c. I c \<Longrightarrow> I (snd (next_block c))"
    and serve: "\<And>c. I c \<Longrightarrow> 0 \<le> nextByte c \<Longrightarrow> nextByte c < 64 \<Longrightarrow>
                  I (c\<lparr>nextByte := nextByte c + 1\<rparr>)"
  shows "I c \<Longrightarrow> I (fst (XOR_loop c dst src i))"
proof (induction c dst src i rule: XOR_loop.induct)
  case (1 c dst src i)
  let ?r = "if 64 \<le> nextByte c then next_block c else (None, c)"
  have I': "I (snd ?r)"
    using "1.prems" step by simp
  show ?case
  proof (cases "i < length dst")
    case False
    then show ?thesis
      using "1.prems" by (simp add: XOR_loop_done)
  next
    case True
    obtain err c' where r: "?r = (err, c')"
      by (cases ?r)
    with I' have c': "I c'"
      by simp
    show ?thesis
    proof (cases err)
      case (Some e)
      with True r c' show ?thesis
        by (simp add: XOR_loop.simps [of c dst src i])
    next
      case None
      show ?thesis
      proof (cases "i < length src \<and> 0 \<le> nextByte c' \<and> nextByte c' < 64")
        case bad: False
        with True r None c' show ?thesis
          by (auto simp add: XOR_loop.simps [of c dst src i])
      next
        case ok: True
        then have "I (c'\<lparr>nextByte := nextByte c' + 1\<rparr>)"
          using c' serve by simp
        then have "I (fst (XOR_loop (c'\<lparr>nextByte := nextByte c' + 1\<rparr>)
            (dst[i := src ! i XOR output c' ! nat (nextByte c')]) src (i + 1)))"
          using "1.IH" [OF True r [symmetric] None] ok by simp
        with True r None ok show ?thesis
          by (simp add: XOR_loop.simps [of c dst src i])
      qed
    qed
  qed
qed

lemma cursor_ok_Read_loop: "cursor_ok c \<Longrightarrow> cursor_ok (fst (Read_loop c p n))"
  by (rule Read_loop_invariant [where I = cursor_ok])
    (simp_all add: cursor_ok_next_block cursor_ok_serve)

lemma cursor_ok_XOR_loop: "cursor_ok c \<Longrightarrow> cursor_ok (fst (XOR_loop c dst src i))"
  by (rule XOR_loop_invariant [where I = cursor_ok])
    (simp_all add: cursor_ok_next_block cursor_ok_serve)


lemma refill_cursor:
  assumes "cursor_ok c"
    and "(if 64 \<le> nextByte c then next_block c else (None, c)) = (None, c')"
  shows "0 \<le> nextByte c' \<and> nextByte c' < 64"
proof (cases "64 \<le> nextByte c")
  case True
  with assms(2) have nb: "next_block c = (None, c')"
    by simp
  then have "\<not> eof c"
    using next_block_fst [of c] by (auto split: if_splits)
  then show ?thesis
    using next_block_nextByte [of c] nb by simp
next
  case False
  with assms show ?thesis
    by (simp add: cursor_ok_def)
qed

lemma Read_loop_no_panic:
  "cursor_ok c \<Longrightarrow> \<exists>k err. snd (snd (Read_loop c p n)) = Inr (k, err)"
proof (induction c p n rule: Read_loop.induct)
  case (1 c p n)
  let ?r = "if 64 \<le> nextByte c then next_block c else (None, c)"
  show ?case
  proof (cases "n < length p")
    case False
    then show ?thesis
      by (simp add: Read_loop_done)
  next
    case True
    obtain err c' where r: "?r = (err, c')"
      by (cases ?r)
    show ?thesis
    proof (cases err)
      case (Some e)
      with True r show ?thesis
        by (simp add: Read_loop.simps [of c p n])
    next
      case None
      with r "1.prems" have ok: "0 \<le> nextByte c' \<and> nextByte c' < 64"
        by (intro refill_cursor [of c]) simp_all
      then have "cursor_ok (c'\<lparr>nextByte := nextByte c' + 1\<rparr>)"
        by (simp add: cursor_ok_def)
      then have "\<exists>k err. snd (snd (Read_loop (c'\<lparr>nextByte := nextByte c' + 1\<rparr>)
          (p[n := output c' ! nat (nextByte c')]) (n + 1))) = Inr (k, err)"
        using "1.IH" [OF True r [symmetric] None ok] by simp
      with True r None ok show ?thesis
        by (simp add: Read_loop.simps [of c p n])
    qed
  qed
qed

lemma XOR_loop_no_index_panic:
  "cursor_ok c \<Longrightarrow> length dst \<le> length src \<Longrightarrow>
   snd (snd (XOR_loop c dst src i)) \<noteq> Inl IndexOutOfRange"
proof (induction c dst src i rule: XOR_loop.induct)
  case (1 c dst src i)
  let ?r = "if 64 \<le> nextByte c then next_block c else (None, c)"
  show ?case
  proof (cases "i < length dst")
    case False
    then show ?thesis
      by (simp add: XOR_loop_done)
  next
    case True
    with "1.prems" have src: "i < length src"
      by simp
    obtain err c' where r: "?r = (err, c')"
      by (cases ?r)
    show ?thesis
    proof (cases err)
      case (Some e)
      with True r show ?thesis
        by (simp add: XOR_loop.simps [of c dst src i])
    next
      case None
      with r "1.prems" have ok: "0 \<le> nextByte c' \<and> nextByte c' < 64"
        by (intro refill_cursor [of c]) simp_all
      then have "cursor_ok (c'\<lparr>nextByte := nextByte c' + 1\<rparr>)"
        by (simp add: cursor_ok_def)
      then have "snd (snd (XOR_loop (c'\<lparr>nextByte := nextByte c' + 1\<rparr>)
          (dst[i := src ! i XOR output c' ! nat (nextByte c')]) src (i + 1))) \<noteq> Inl IndexOutOfRange"
        using "1.IH" [OF True r [symmetric] None] src ok "1.prems"(2) by simp
      with True r None ok src show ?thesis
        by (simp add: XOR_loop.simps [of c dst src i])
    qed
  qed
qed

section \<open>\<^verbatim>\<open>Seek\<close> and the history of a cipher\<close>

lemma upd_12_13:
  assumes "length (xs :: 'a list) = 16"
  shows "xs[12 := a, 13 := b] = take 12 xs @ a # b # drop 14 xs"
proof -
  from assms obtain x0 x1 x2 x3 x4 x5 x6 x7 x8 x9 x10 x11 x12 x13 x14 x15
    where "xs = [x0, x1, x2, x3, x4, x5, x6, x7, x8, x9, x10, x11, x12, x13, x14, x15]"
    by (rule length16_explicit)
  then show ?thesis
    by simp
qed

lemma Seek_eq:
  assumes "wf_Cipher c"
  shows "Seek c n =
    c\<lparr>input := (input c)[12 := ucast (n + 1), 13 := ucast (drop_bit 32 (n + 1))],
      output := chacha_block_ref (nat ((rounds c + 1) div 2))
                  ((input c)[12 := ucast n, 13 := ucast (drop_bit 32 n)]),
      nextByte := 0, eof := (n + 1 = 0)\<rparr>"
proof -
  let ?c1 = "c\<lparr>input := (input c)[12 := ucast n, 13 := ucast (drop_bit 32 n)], eof := False\<rparr>"
  from assms have len: "length (input c) = 16"
    by (simp add: wf_Cipher_def)
  have wf1: "wf_Cipher ?c1" and ne1: "\<not> eof ?c1"
    using assms by (simp_all add: wf_Cipher_def)
  have ctr: "counter ?c1 = n"
    using len by (simp add: counter_def counter_roundtrip)
  have "Seek c n = snd (next_block ?c1)"
    by (simp add: Seek_def)
  also have "\<dots> = ?c1\<lparr>input := (input ?c1)[12 := ucast (n + 1), 13 := ucast (drop_bit 32 (n + 1))],
      output := chacha_block_ref (nat ((rounds ?c1 + 1) div 2)) (input ?c1),
      nextByte := 0, eof := (n + 1 = 0)\<rparr>"
    by (simp only: next_block_ok [OF wf1 ne1] ctr snd_conv)
  also have "(input ?c1)[12 := ucast (n + 1), 13 := ucast (drop_bit 32 (n + 1))] =
      (input c)[12 := ucast (n + 1), 13 := ucast (drop_bit 32 (n + 1))]"
    using len by (simp add: upd_12_13)
  finally show ?thesis
    by simp
qed

lemma Seek_same_params:
  assumes "same_params c0 c" and "wf_Cipher c0"
  shows "Seek c n = Seek c0 n"
proof -
  from assms have wf: "wf_Cipher c" and r: "rounds c = rounds c0"
    and t: "take 12 (input c) = take 12 (input c0)"
    and d: "drop 14 (input c) = drop 14 (input c0)"
    by (simp_all add: same_params_def)
  from wf assms(2) have len: "length (input c) = 16" "length (input c0) = 16"
    by (simp_all add: wf_Cipher_def)
  have u: "(input c)[12 := a, 13 := b] = (input c0)[12 := a, 13 := b]" for a b
    by (simp add: upd_12_13 len t d)
  show ?thesis
    using r unfolding Seek_eq [OF wf] Seek_eq [OF assms(2)] u
    by (cases c, cases c0) simp
qed


lemma same_params_refl: "wf_Cipher c0 \<Longrightarrow> same_params c0 c0"
  by (simp add: same_params_def)

lemma same_params_next_block:
  assumes "same_params c0 c"
  shows "same_params c0 (snd (next_block c))"
proof (cases "eof c")
  case True
  with assms show ?thesis
    by (simp add: next_block_eof)
next
  case False
  from assms have wf: "wf_Cipher c"
    by (simp add: same_params_def)
  from wf_next_block [OF wf] assms show ?thesis
    by (simp add: same_params_def next_block_ok [OF wf False])
qed

lemma same_params_serve:
  "same_params c0 c \<Longrightarrow> same_params c0 (c\<lparr>nextByte := k\<rparr>)"
  by (simp add: same_params_def wf_Cipher_def)

lemma same_params_Seek:
  assumes "same_params c0 c"
  shows "same_params c0 (Seek c n)"
proof -
  from assms have wf: "wf_Cipher c"
    by (simp add: same_params_def)
  from assms show ?thesis
    by (simp add: Seek_eq [OF wf] same_params_def wf_Cipher_def)
qed

lemma reachable_same_params:
  assumes "reachable c0 c" and "wf_Cipher c0"
  shows "same_params c0 c"
  using assms(1)
proof (induction rule: reachable.induct)
  case start
  from assms(2) show ?case
    by (rule same_params_refl)
next
  case (read c p)
  then show ?case
    unfolding Read_def
    by (intro Read_loop_invariant [where I = "same_params c0"])
      (simp_all add: same_params_next_block same_params_serve)
next
  case (xor c dst src)
  then show ?case
    unfolding XORKeyStream_def
    by (intro XOR_loop_invariant [where I = "same_params c0"])
      (simp_all add: same_params_next_block same_params_serve)
next
  case (seek c n)
  then show ?case
    by (simp add: same_params_Seek)
qed

lemma Seek_0_fresh:
  assumes "New key iv r = Inr c0"
  shows "Seek c0 0 = snd (next_block c0)"
proof -
  from New_Inr_fields [OF assms]
  have "c0\<lparr>input := (input c0)[12 := 0, 13 := 0], eof := False\<rparr> = c0"
    by simp
  then show ?thesis
    by (simp add: Seek_def)
qed

lemma Read_fresh:
  assumes "New key iv r = Inr c0"
  shows "snd (Read c0 p) = snd (Read (Seek c0 0) p)"
proof (cases "p = []")
  case True
  then show ?thesis
    by (simp add: Read_def Read_loop_done)
next
  case False
  with New_Inr_fields [OF assms] have "Read c0 p = Read (snd (next_block c0)) p"
    by (intro Read_refill) simp_all
  then show ?thesis
    by (simp add: Seek_0_fresh [OF assms])
qed


lemma eof_Seek_last: "wf_Cipher c \<Longrightarrow> eof (Seek c 0xFFFFFFFFFFFFFFFF)"
  by (simp add: Seek_eq)

lemma wf_Seek: "wf_Cipher c \<Longrightarrow> wf_Cipher (Seek c n)"
  by (simp add: Seek_eq wf_Cipher_def)

section \<open>\<^verbatim>\<open>XORKeyStream\<close> against \<^verbatim>\<open>Read\<close>\<close>

text \<open>
  A call of \<^verbatim>\<open>XORKeyStream\<close> that returns has consumed the keystream exactly as a
  \<^verbatim>\<open>Read\<close> into a slice of the length of \<open>dst\<close> does, and has XORed every byte.
\<close>

lemma Read_loop_prefix:
  "length (fst (snd (Read_loop c p n))) = length p \<and>
   (\<forall>j<n. fst (snd (Read_loop c p n)) ! j = p ! j)"
proof (induction c p n rule: Read_loop.induct)
  case (1 c p n)
  let ?r = "if 64 \<le> nextByte c then next_block c else (None, c)"
  show ?case
  proof (cases "n < length p")
    case False
    then show ?thesis
      by (simp add: Read_loop_done)
  next
    case True
    obtain err c' where r: "?r = (err, c')"
      by (cases ?r)
    show ?thesis
    proof (cases err)
      case (Some e)
      with True r show ?thesis
        by (simp add: Read_loop.simps [of c p n])
    next
      case None
      show ?thesis
      proof (cases "0 \<le> nextByte c' \<and> nextByte c' < 64")
        case bad: False
        with True r None show ?thesis
          by (auto simp add: Read_loop.simps [of c p n])
      next
        case ok: True
        let ?p' = "p[n := output c' ! nat (nextByte c')]"
        let ?res = "Read_loop (c'\<lparr>nextByte := nextByte c' + 1\<rparr>) ?p' (n + 1)"
        have eq: "Read_loop c p n = ?res"
          using True r None ok by (simp add: Read_loop.simps [of c p n])
        have IH: "length (fst (snd ?res)) = length ?p' \<and>
            (\<forall>j<n + 1. fst (snd ?res) ! j = ?p' ! j)"
          using "1.IH" [OF True r [symmetric] None ok] .
        then show ?thesis
          unfolding eq by simp
      qed
    qed
  qed
qed

lemma XOR_loop_result_cases:
  "snd (snd (XOR_loop c dst src i)) = Inr () \<or>
   snd (snd (XOR_loop c dst src i)) = Inl IndexOutOfRange \<or>
   snd (snd (XOR_loop c dst src i)) = Inl (PanicErr ExhaustedKeystream)"
proof (induction c dst src i rule: XOR_loop.induct)
  case (1 c dst src i)
  let ?r = "if 64 \<le> nextByte c then next_block c else (None, c)"
  show ?case
  proof (cases "i < length dst")
    case False
    then show ?thesis
      by (simp add: XOR_loop_done)
  next
    case True
    obtain err c' where r: "?r = (err, c')"
      by (cases ?r)
    show ?thesis
    proof (cases err)
      case (Some e)
      with r have "e = ExhaustedKeystream"
        using next_block_fst [of c] by (auto split: if_splits)
      with Some True r show ?thesis
        by (simp add: XOR_loop.simps [of c dst src i])
    next
      case None
      show ?thesis
      proof (cases "i < length src \<and> 0 \<le> nextByte c' \<and> nextByte c' < 64")
        case bad: False
        with True r None show ?thesis
          by (auto simp add: XOR_loop.simps [of c dst src i])
      next
        case ok: True
        let ?res = "XOR_loop (c'\<lparr>nextByte := nextByte c' + 1\<rparr>)
            (dst[i := src ! i XOR output c' ! nat (nextByte c')]) src (i + 1)"
        have eq: "XOR_loop c dst src i = ?res"
          using True r None ok by (simp add: XOR_loop.simps [of c dst src i])
        have "snd (snd ?res) = Inr () \<or> snd (snd ?res) = Inl IndexOutOfRange \<or>
            snd (snd ?res) = Inl (PanicErr ExhaustedKeystream)"
          using "1.IH" [OF True r [symmetric] None] ok by simp
        then show ?thesis
          unfolding eq .
      qed
    qed
  qed
qed

lemma XOR_loop_simulates_Read_loop:
  "\<forall>p. snd (snd (XOR_loop c dst src i)) = Inr () \<longrightarrow> length p = length dst \<longrightarrow>
     i \<le> length dst \<longrightarrow>
     fst (Read_loop c p i) = fst (XOR_loop c dst src i) \<and>
     snd (snd (Read_loop c p i)) = Inr (length dst, None) \<and>
     length (fst (snd (XOR_loop c dst src i))) = length dst \<and>
     (\<forall>j<i. fst (snd (XOR_loop c dst src i)) ! j = dst ! j) \<and>
     (\<forall>j. i \<le> j \<and> j < length dst \<longrightarrow>
        j < length src \<and>
        fst (snd (XOR_loop c dst src i)) ! j = src ! j XOR fst (snd (Read_loop c p i)) ! j)"
proof (induction c dst src i rule: XOR_loop.induct)
  case (1 c dst src i)
  let ?r = "if 64 \<le> nextByte c then next_block c else (None, c)"
  show ?case
  proof (cases "i < length dst")
    case False
    then show ?thesis
      by (auto simp add: XOR_loop_done Read_loop_done)
  next
    case True
    obtain err c' where r: "?r = (err, c')"
      by (cases ?r)
    show ?thesis
    proof (cases err)
      case (Some e)
      with True r show ?thesis
        by (simp add: XOR_loop.simps [of c dst src i])
    next
      case None
      show ?thesis
      proof (cases "i < length src \<and> 0 \<le> nextByte c' \<and> nextByte c' < 64")
        case bad: False
        with True r None show ?thesis
          by (auto simp add: XOR_loop.simps [of c dst src i])
      next
        case ok: True
        let ?b = "output c' ! nat (nextByte c')"
        let ?c'' = "c'\<lparr>nextByte := nextByte c' + 1\<rparr>"
        let ?dst' = "dst[i := src ! i XOR ?b]"
        let ?X = "XOR_loop ?c'' ?dst' src (i + 1)"
        have eqX: "XOR_loop c dst src i = ?X"
          using True r None ok by (simp add: XOR_loop.simps [of c dst src i])
        have IH: "\<forall>p. snd (snd ?X) = Inr () \<longrightarrow> length p = length ?dst' \<longrightarrow>
            i + 1 \<le> length ?dst' \<longrightarrow>
            fst (Read_loop ?c'' p (i + 1)) = fst ?X \<and>
            snd (snd (Read_loop ?c'' p (i + 1))) = Inr (length ?dst', None) \<and>
            length (fst (snd ?X)) = length ?dst' \<and>
            (\<forall>j<i + 1. fst (snd ?X) ! j = ?dst' ! j) \<and>
            (\<forall>j. i + 1 \<le> j \<and> j < length ?dst' \<longrightarrow>
               j < length src \<and>
               fst (snd ?X) ! j = src ! j XOR fst (snd (Read_loop ?c'' p (i + 1))) ! j)"
        proof -
          from ok have ns: "\<not> \<not> i < length src" and cur: "0 \<le> nextByte c' \<and> nextByte c' < 64"
            by simp_all
          show ?thesis
            using "1.IH" [OF True r [symmetric] None ns cur] .
        qed
        show ?thesis
        proof (intro allI impI)
          fix p :: "byte list"
          assume res: "snd (snd (XOR_loop c dst src i)) = Inr ()"
            and len: "length p = length dst" and "i \<le> length dst"
          let ?p' = "p[i := ?b]"
          let ?R = "Read_loop ?c'' ?p' (i + 1)"
          have eqR: "Read_loop c p i = ?R"
            using True r None ok len by (simp add: Read_loop.simps [of c p i])
          from IH [rule_format, of ?p'] res True len
          have a: "fst ?R = fst ?X" and b: "snd (snd ?R) = Inr (length dst, None)"
            and c: "length (fst (snd ?X)) = length dst"
            and d: "\<forall>j<i + 1. fst (snd ?X) ! j = ?dst' ! j"
            and e: "\<forall>j. i + 1 \<le> j \<and> j < length dst \<longrightarrow>
               j < length src \<and> fst (snd ?X) ! j = src ! j XOR fst (snd ?R) ! j"
            unfolding eqX by simp_all
          have pre: "fst (snd ?R) ! i = ?b"
            using Read_loop_prefix [of ?c'' ?p' "i + 1"] True len by simp
          have f: "\<forall>j<i. fst (snd ?X) ! j = dst ! j"
            using d by auto
          have g: "fst (snd ?X) ! i = src ! i XOR fst (snd ?R) ! i"
            using d True pre by simp
          have h: "\<forall>j. i \<le> j \<and> j < length dst \<longrightarrow>
               j < length src \<and> fst (snd ?X) ! j = src ! j XOR fst (snd ?R) ! j"
          proof (intro allI impI)
            fix j
            assume j: "i \<le> j \<and> j < length dst"
            show "j < length src \<and> fst (snd ?X) ! j = src ! j XOR fst (snd ?R) ! j"
            proof (cases "j = i")
              case True
              with g ok show ?thesis by simp
            next
              case False
              with j e show ?thesis by simp
            qed
          qed
          from a b c f h show "fst (Read_loop c p i) = fst (XOR_loop c dst src i) \<and>
              snd (snd (Read_loop c p i)) = Inr (length dst, None) \<and>
              length (fst (snd (XOR_loop c dst src i))) = length dst \<and>
              (\<forall>j<i. fst (snd (XOR_loop c dst src i)) ! j = dst ! j) \<and>
              (\<forall>j. i \<le> j \<and> j < length dst \<longrightarrow>
                 j < length src \<and>
                 fst (snd (XOR_loop c dst src i)) ! j =
                   src ! j XOR fst (snd (Read_loop c p i)) ! j)"
            unfolding eqX eqR by simp
        qed
      qed
    qed
  qed
qed


lemma XOR_normal_return:
  assumes "snd (snd (XORKeyStream c dst src)) = Inr ()"
  shows "length dst \<le> length src"
    and "Read c dst = (fst (XORKeyStream c dst src), fst (snd (Read c dst)), Inr (length dst, None))"
    and "fst (snd (XORKeyStream c dst src)) = map2 (XOR) src (fst (snd (Read c dst)))"
proof -
  let ?X = "XOR_loop c dst src 0" and ?R = "Read_loop c dst 0"
  from assms have "snd (snd ?X) = Inr ()"
    by (simp add: XORKeyStream_def)
  with XOR_loop_simulates_Read_loop [of c dst src 0, rule_format, of dst]
  have a: "fst ?R = fst ?X" and b: "snd (snd ?R) = Inr (length dst, None)"
    and l: "length (fst (snd ?X)) = length dst"
    and e: "\<And>j. j < length dst \<Longrightarrow> j < length src \<and> fst (snd ?X) ! j = src ! j XOR fst (snd ?R) ! j"
    by simp_all
  have lr: "length (fst (snd ?R)) = length dst"
    using Read_loop_prefix [of c dst 0] by simp
  show le: "length dst \<le> length src"
  proof (cases "dst = []")
    case True
    then show ?thesis by simp
  next
    case False
    then have "length dst - 1 < length dst"
      by simp
    from e [OF this] have "length dst - 1 < length src"
      by simp
    then show ?thesis
      by linarith
  qed
  show "Read c dst = (fst (XORKeyStream c dst src), fst (snd (Read c dst)), Inr (length dst, None))"
    using a b by (simp add: Read_def XORKeyStream_def prod_eq_iff)
  show "fst (snd (XORKeyStream c dst src)) = map2 (XOR) src (fst (snd (Read c dst)))"
    unfolding Read_def XORKeyStream_def
    using l lr le e by (simp add: list_eq_iff_nth_eq)
qed

lemma XOR_exhausted_panics:
  assumes "cursor_ok c" and "length (output c) = 64" and "eof c"
    and "length dst \<le> length src" and "nat (64 - nextByte c) < length dst"
  shows "snd (snd (XORKeyStream c dst src)) = Inl (PanicErr ExhaustedKeystream)"
proof -
  have r: "snd (snd (Read c dst)) = Inr (nat (64 - nextByte c), Some EOF)"
    using assms by (simp add: cursor_ok_def Read_exhausted_partial)
  have "snd (snd (XORKeyStream c dst src)) \<noteq> Inr ()"
  proof
    assume "snd (snd (XORKeyStream c dst src)) = Inr ()"
    from XOR_normal_return(2) [OF this] r show False
      by (simp add: prod_eq_iff)
  qed
  moreover have "snd (snd (XORKeyStream c dst src)) \<noteq> Inl IndexOutOfRange"
    using assms(1,4) by (simp add: XORKeyStream_def XOR_loop_no_index_panic)
  ultimately show ?thesis
    using XOR_loop_result_cases [of c dst src 0] by (simp add: XORKeyStream_def)
qed

lemma XOR_loop_src_cong:
  "length dst \<le> length src \<Longrightarrow> length dst \<le> length src' \<Longrightarrow>
   (\<forall>j<length dst. src ! j = src' ! j) \<Longrightarrow>
   XOR_loop c dst src i = XOR_loop c dst src' i"
proof (induction c dst src i rule: XOR_loop.induct)
  case (1 c dst src i)
  let ?r = "if 64 \<le> nextByte c then next_block c else (None, c)"
  show ?case
  proof (cases "i < length dst")
    case False
    then show ?thesis
      by (simp add: XOR_loop_done)
  next
    case True
    with "1.prems" have s: "i < length src" "i < length src'" "src ! i = src' ! i"
      by simp_all
    obtain err c' where r: "?r = (err, c')"
      by (cases ?r)
    show ?thesis
    proof (cases err)
      case (Some e)
      with True r show ?thesis
        by (simp add: XOR_loop.simps [of c dst src i] XOR_loop.simps [of c dst src' i])
    next
      case None
      show ?thesis
      proof (cases "0 \<le> nextByte c' \<and> nextByte c' < 64")
        case bad: False
        with True r None s show ?thesis
          by (auto simp add: XOR_loop.simps [of c dst src i] XOR_loop.simps [of c dst src' i])
      next
        case ok: True
        from s have ns: "\<not> \<not> i < length src"
          by simp
        let ?dst' = "dst[i := src ! i XOR output c' ! nat (nextByte c')]"
        have "XOR_loop (c'\<lparr>nextByte := nextByte c' + 1\<rparr>) ?dst' src (i + 1) =
            XOR_loop (c'\<lparr>nextByte := nextByte c' + 1\<rparr>) ?dst' src' (i + 1)"
          using "1.prems" by (intro "1.IH" [OF True r [symmetric] None ns ok]) simp_all
        with True r None ok s show ?thesis
          by (simp add: XOR_loop.simps [of c dst src i] XOR_loop.simps [of c dst src' i])
      qed
    qed
  qed
qed

lemma XOR_ignores_longer_src:
  assumes "length dst \<le> length src"
  shows "XORKeyStream c dst src = XORKeyStream c dst (take (length dst) src)"
  unfolding XORKeyStream_def using assms by (intro XOR_loop_src_cong) simp_all

lemma XOR_short_src_panics:
  assumes "length src < length dst"
  shows "snd (snd (XORKeyStream c dst src)) = Inl IndexOutOfRange \<or>
         snd (snd (XORKeyStream c dst src)) = Inl (PanicErr ExhaustedKeystream)"
proof -
  have "snd (snd (XORKeyStream c dst src)) \<noteq> Inr ()"
  proof
    assume "snd (snd (XORKeyStream c dst src)) = Inr ()"
    from XOR_normal_return(1) [OF this] assms show False
      by simp
  qed
  then show ?thesis
    using XOR_loop_result_cases [of c dst src 0] by (simp add: XORKeyStream_def)
qed


lemma XOR_one_byte:
  assumes "0 \<le> nextByte c" and "nextByte c < 64"
  shows "XORKeyStream c [d] (s # ss) =
    (c\<lparr>nextByte := nextByte c + 1\<rparr>, [s XOR output c ! nat (nextByte c)], Inr ())"
  using assms by (simp add: XORKeyStream_def XOR_loop_buffered XOR_loop_done)

lemma output_Seek_zero_0:
  "output (Seek zero_cipher 0) = chacha_block_ref 10 (input zero_cipher)"
  by (simp add: Seek_eq [OF wf_zero_cipher]) (simp add: zero_cipher_def)

section \<open>The claims\<close>

text \<open>
  C1: for 20 rounds, a key of 32 zero bytes and a nonce of 8 zero bytes, construction
  succeeds and the first 64 bytes read from the new cipher, which are block 0, are the
  published ChaCha20 test vector \<^verbatim>\<open>76b8e0ada0f13d90...b2ee6586\<close>.
\<close>

theorem chacha20_zero_key_block0:
  "\<exists>c. New (replicate 32 0) (replicate 8 0) 20 = Inr c \<and>
     Read c (replicate 64 0) =
       ((snd (next_block c))\<lparr>nextByte := 64\<rparr>,
        [0x76, 0xb8, 0xe0, 0xad, 0xa0, 0xf1, 0x3d, 0x90, 0x40, 0x5d, 0x6a, 0xe5, 0x53, 0x86, 0xbd, 0x28, 0xbd, 0xd2, 0x19, 0xb8, 0xa0, 0x8d, 0xed, 0x1a, 0xa8, 0x36, 0xef, 0xcc, 0x8b, 0x77, 0x0d, 0xc7, 0xda, 0x41, 0x59, 0x7c, 0x51, 0x57, 0x48, 0x8d, 0x77, 0x24, 0xe0, 0x3f, 0xb8, 0xd8, 0x4a, 0x37, 0x6a, 0x43, 0xb8, 0xf4, 0x15, 0x18, 0xa1, 0x1c, 0xc3, 0x87, 0xb6, 0x69, 0xb2, 0xee, 0x65, 0x86],
        Inr (64, None))"
proof -
  let ?c1 = "snd (next_block zero_cipher)"
  have ne: "\<not> eof zero_cipher" and nb: "64 \<le> nextByte zero_cipher"
    by (simp_all add: zero_cipher_def)
  have c1: "nextByte ?c1 = 0" "length (output ?c1) = 64"
    "output ?c1 = chacha_block_ref 10 (input zero_cipher)"
    using wf_zero_cipher ne by (simp_all add: next_block_ok zero_cipher_def)
  have "Read zero_cipher (replicate 64 0) = Read ?c1 (replicate 64 0)"
    using ne nb by (intro Read_refill) simp_all
  also have "\<dots> = (?c1\<lparr>nextByte := 64\<rparr>, output ?c1, Inr (64, None))"
    using c1(1,2) by (simp add: Read_buffered_all)
  finally show ?thesis
    using New_zero by (simp add: c1(3) block_zero)
qed

text \<open>
  C2: for every well-formed state that is not exhausted and every even round count
  \<open>r > 0\<close>, the block that \<^verbatim>\<open>next\<close> writes to the output buffer is the block of the
  reference algorithm: the sixteen state words are copied, \<open>r / 2\<close> double rounds are
  run on the copy, each a column round followed by a diagonal round of quarter rounds,
  every word of the result is added to the state word it started from, and the sixteen
  sums are stored little-endian, the word \<open>i\<close> at the offset \<open>4 * i\<close>.
\<close>

theorem next_block_refines_reference:
  assumes "wf_Cipher c" and "\<not> eof c" and "0 < rounds c" and "even (rounds c)"
  shows "fst (next_block c) = None \<and>
         output (snd (next_block c)) = chacha_block_ref (nat (rounds c div 2)) (input c)"
proof -
  from assms(4) have "(rounds c + 1) div 2 = rounds c div 2"
    by presburger
  with assms(1,2) show ?thesis
    by (simp add: next_block_ok)
qed

theorem next_block_refines_reference_witness:
  "wf_Cipher zero_cipher \<and> \<not> eof zero_cipher \<and> 0 < rounds zero_cipher \<and>
   even (rounds zero_cipher) \<and> fst (next_block zero_cipher) = None \<and>
   output (snd (next_block zero_cipher)) =
     chacha_block_ref (nat (rounds zero_cipher div 2)) (input zero_cipher)"
proof -
  have h: "wf_Cipher zero_cipher" "\<not> eof zero_cipher" "0 < rounds zero_cipher"
    "even (rounds zero_cipher)"
    by (simp_all add: wf_Cipher_def zero_cipher_def)
  from h next_block_refines_reference [OF h] show ?thesis
    by simp
qed

text \<open>
  C3 (as amended): \<^verbatim>\<open>New\<close> has no error result. With a key shorter than 32 bytes, or
  with a key of at least 32 bytes and a nonce shorter than 8 bytes, it panics with the
  runtime's index-out-of-range error: the bounds check stops the read and no cipher is
  returned. With a key of at least 32 bytes and a nonce of at least 8 bytes it returns a
  cipher, the same one as for the first 32 key bytes and the first 8 nonce bytes alone.
\<close>

theorem New_lengths:
  "(length key < 32 \<longrightarrow> New key iv r = Inl IndexOutOfRange) \<and>
   (32 \<le> length key \<and> length iv < 8 \<longrightarrow> New key iv r = Inl IndexOutOfRange) \<and>
   (32 \<le> length key \<and> 8 \<le> length iv \<longrightarrow>
      (\<exists>c. New key iv r = Inr c \<and> New (take 32 key) (take 8 iv) r = Inr c))"
  by (simp add: New_short_key New_short_iv New_long le32_take)

theorem New_lengths_witness:
  "New (replicate 31 0) (replicate 8 0) 20 = Inl IndexOutOfRange \<and>
   New (replicate 32 0) (replicate 7 0) 20 = Inl IndexOutOfRange \<and>
   (\<exists>c. New (replicate 33 1) (replicate 9 1) 20 = Inr c \<and>
        New (take 32 (replicate 33 1)) (take 8 (replicate 9 1)) 20 = Inr c)"
  using New_lengths [of "replicate 31 0" "replicate 8 0" 20]
    New_lengths [of "replicate 32 0" "replicate 7 0" 20]
    New_lengths [of "replicate 33 1" "replicate 9 1" 20]
  by simp

text \<open>
  The claim as stated fails: a key of 31 bytes, and a nonce of 7 bytes, end in the
  runtime panic of an index out of range, not in a returned length error.
\<close>

theorem New_short_key_counterexample:
  "New (replicate 31 0) (replicate 8 0) 20 = Inl IndexOutOfRange \<and>
   New (replicate 32 0) (replicate 7 0) 20 = Inl IndexOutOfRange"
  by (simp add: New_short_key New_short_iv)

text \<open>
  C4: a block generation that succeeds adds exactly one (modulo \<open>2\<^sup>6\<^sup>4\<close>) to the 64-bit
  counter held in the words 13 (high) and 12 (low). It writes the block of the state it
  started from to the output buffer and resets the cursor, also when the counter wraps
  around; the exhausted flag is set exactly when the counter wraps, and then the next
  generation attempt, and only that one, fails and leaves the cipher as it is.
\<close>

theorem next_block_counter:
  assumes "wf_Cipher c" and "\<not> eof c"
  shows "\<exists>c'. next_block c = (None, c') \<and>
           counter c' = counter c + 1 \<and>
           output c' = chacha_block_ref (nat ((rounds c + 1) div 2)) (input c) \<and>
           nextByte c' = 0 \<and>
           (eof c' \<longleftrightarrow> counter c = 0xFFFFFFFFFFFFFFFF) \<and>
           fst (next_block c') =
             (if counter c = 0xFFFFFFFFFFFFFFFF then Some ExhaustedKeystream else None) \<and>
           (counter c = 0xFFFFFFFFFFFFFFFF \<longrightarrow> snd (next_block c') = c')"
proof -
  let ?c' = "snd (next_block c)"
  have 1: "next_block c = (None, ?c')"
    using assms by (simp add: next_block_ok)
  have 2: "counter ?c' = counter c + 1"
    using assms by (rule counter_next_block)
  have 3: "output ?c' = chacha_block_ref (nat ((rounds c + 1) div 2)) (input c)"
    and 4: "nextByte ?c' = 0"
    and 5: "eof ?c' \<longleftrightarrow> counter c = 0xFFFFFFFFFFFFFFFF"
    using assms by (simp_all add: next_block_ok u64_succ_zero)
  have 6: "fst (next_block ?c') =
      (if counter c = 0xFFFFFFFFFFFFFFFF then Some ExhaustedKeystream else None)"
    by (simp only: next_block_fst 5)
  have 7: "counter c = 0xFFFFFFFFFFFFFFFF \<longrightarrow> snd (next_block ?c') = ?c'"
    using 5 by (simp add: next_block_eof)
  from 1 2 3 4 5 6 7 show ?thesis
    by blast
qed

theorem next_block_counter_witness:
  "wf_Cipher last_block_cipher \<and> \<not> eof last_block_cipher \<and>
   counter last_block_cipher = 0xFFFFFFFFFFFFFFFF \<and>
   (\<exists>c'. next_block last_block_cipher = (None, c') \<and> counter c' = 0 \<and>
      output c' = chacha_block_ref 10 (input last_block_cipher) \<and> nextByte c' = 0 \<and>
      eof c' \<and> next_block c' = (Some ExhaustedKeystream, c'))"
proof -
  have h: "wf_Cipher last_block_cipher" "\<not> eof last_block_cipher"
    by (simp_all add: wf_Cipher_def last_block_cipher_def zero_cipher_def)
  have r: "nat ((rounds last_block_cipher + 1) div 2) = 10"
    by (simp add: last_block_cipher_def zero_cipher_def)
  from next_block_counter [OF h] obtain c' where
    "next_block last_block_cipher = (None, c')" "counter c' = 0"
    "output c' = chacha_block_ref 10 (input last_block_cipher)" "nextByte c' = 0"
    "eof c'" "fst (next_block c') = Some ExhaustedKeystream" "snd (next_block c') = c'"
    unfolding r counter_last_block_cipher by auto
  then show ?thesis
    using h counter_last_block_cipher by (auto simp add: prod_eq_iff)
qed

text \<open>
  C5: let \<open>c0\<close> be the cipher constructed from a key, a nonce and a round count, and
  \<open>c\<close> the same cipher after any history of reads, XORs and seeks. For every block
  index \<open>n\<close>, \<^verbatim>\<open>Seek(n)\<close> leaves \<open>c\<close> in the very state in which it leaves the fresh
  cipher \<open>c0\<close>, so every read after it (of 64 bytes or any other length) returns the same
  bytes and the same result. In particular, after \<^verbatim>\<open>Seek(0)\<close> a read returns what the
  first read from the fresh cipher returns: the initial keystream.
\<close>

theorem Seek_deterministic:
  assumes "New key iv r = Inr c0" and "reachable c0 c"
  shows "Seek c n = Seek c0 n \<and>
         Read (Seek c n) p = Read (Seek c0 n) p \<and>
         snd (Read (Seek c 0) p) = snd (Read c0 p)"
proof -
  from assms(1) have wf: "wf_Cipher c0"
    by (rule New_Inr_fields)
  from assms(2) wf have "same_params c0 c"
    by (rule reachable_same_params)
  then have s: "Seek c m = Seek c0 m" for m
    using wf by (rule Seek_same_params)
  show ?thesis
    by (simp add: s Read_fresh [OF assms(1)])
qed

theorem Seek_deterministic_witness:
  "New (replicate 32 0) (replicate 8 0) 20 = Inr zero_cipher \<and>
   reachable zero_cipher
     (fst (XORKeyStream (fst (Read (Seek zero_cipher 5) [0, 0, 0])) [0, 0] [1, 2])) \<and>
   Seek (fst (XORKeyStream (fst (Read (Seek zero_cipher 5) [0, 0, 0])) [0, 0] [1, 2])) 3 =
     Seek zero_cipher 3 \<and>
   Read (Seek (fst (XORKeyStream (fst (Read (Seek zero_cipher 5) [0, 0, 0])) [0, 0] [1, 2])) 3)
       (replicate 64 0) =
     Read (Seek zero_cipher 3) (replicate 64 0) \<and>
   snd (Read (Seek (fst (XORKeyStream (fst (Read (Seek zero_cipher 5) [0, 0, 0])) [0, 0] [1, 2])) 0)
       (replicate 64 0)) =
     snd (Read zero_cipher (replicate 64 0))"
proof -
  let ?c = "fst (XORKeyStream (fst (Read (Seek zero_cipher 5) [0, 0, 0])) [0, 0] [1, 2])"
  have h: "reachable zero_cipher ?c"
    by (intro reachable.xor reachable.read reachable.seek reachable.start)
  from Seek_deterministic [OF New_zero h, of 3 "replicate 64 0"] h New_zero show ?thesis
    by simp
qed

text \<open>
  C6 (as amended): \<^verbatim>\<open>Read\<close> serves the bytes of the output buffer from the cursor on.
  A request that the buffer can satisfy returns those bytes and no error. A longer
  request takes what is left in the buffer and then, when the keystream is not exhausted,
  generates the next block and goes on from there; when the keystream is exhausted it
  stops and returns the number of bytes written with \<^verbatim>\<open>io.EOF\<close>, the end-of-stream signal.
  Once the final block generation has set the exhausted condition, the bytes of that
  final block are still served; a read of at least one byte with the buffer drained
  (cursor 64) returns end-of-stream with zero bytes written and changes nothing.
\<close>

theorem Read_drains_and_stops:
  "(cursor_ok c \<and> length (output c) = 64 \<and> nextByte c + int (length p) \<le> 64 \<longrightarrow>
      Read c p =
        (c\<lparr>nextByte := nextByte c + int (length p)\<rparr>,
         take (length p) (drop (nat (nextByte c)) (output c)), Inr (length p, None))) \<and>
   (cursor_ok c \<and> length (output c) = 64 \<and> \<not> eof c \<and> nat (64 - nextByte c) < length p \<longrightarrow>
      Read c p =
        Read_loop (snd (next_block (c\<lparr>nextByte := 64\<rparr>)))
          (drop (nat (nextByte c)) (output c) @ drop (nat (64 - nextByte c)) p)
          (nat (64 - nextByte c))) \<and>
   (cursor_ok c \<and> length (output c) = 64 \<and> eof c \<and> nat (64 - nextByte c) < length p \<longrightarrow>
      Read c p =
        (c\<lparr>nextByte := 64\<rparr>,
         drop (nat (nextByte c)) (output c) @ drop (nat (64 - nextByte c)) p,
         Inr (nat (64 - nextByte c), Some EOF))) \<and>
   (eof c \<and> nextByte c = 64 \<and> p \<noteq> [] \<longrightarrow> Read c p = (c, p, Inr (0, Some EOF)))"
proof (intro conjI impI)
  assume "cursor_ok c \<and> length (output c) = 64 \<and> nextByte c + int (length p) \<le> 64"
  then show "Read c p =
      (c\<lparr>nextByte := nextByte c + int (length p)\<rparr>,
       take (length p) (drop (nat (nextByte c)) (output c)), Inr (length p, None))"
    by (simp add: cursor_ok_def Read_buffered_all)
next
  assume "cursor_ok c \<and> length (output c) = 64 \<and> \<not> eof c \<and> nat (64 - nextByte c) < length p"
  then show "Read c p =
      Read_loop (snd (next_block (c\<lparr>nextByte := 64\<rparr>)))
        (drop (nat (nextByte c)) (output c) @ drop (nat (64 - nextByte c)) p)
        (nat (64 - nextByte c))"
    by (simp add: cursor_ok_def Read_across_block)
next
  assume "cursor_ok c \<and> length (output c) = 64 \<and> eof c \<and> nat (64 - nextByte c) < length p"
  then show "Read c p =
      (c\<lparr>nextByte := 64\<rparr>,
       drop (nat (nextByte c)) (output c) @ drop (nat (64 - nextByte c)) p,
       Inr (nat (64 - nextByte c), Some EOF))"
    by (simp add: cursor_ok_def Read_exhausted_partial)
next
  assume "eof c \<and> nextByte c = 64 \<and> p \<noteq> []"
  then show "Read c p = (c, p, Inr (0, Some EOF))"
    by (simp add: Read_def Read_loop_exhausted)
qed

theorem Read_drains_and_stops_witness:
  "cursor_ok (Seek zero_cipher 0xFFFFFFFFFFFFFFFF) \<and>
   length (output (Seek zero_cipher 0xFFFFFFFFFFFFFFFF)) = 64 \<and>
   eof (Seek zero_cipher 0xFFFFFFFFFFFFFFFF) \<and>
   Read (Seek zero_cipher 0xFFFFFFFFFFFFFFFF) [0, 0, 0] =
     ((Seek zero_cipher 0xFFFFFFFFFFFFFFFF)\<lparr>nextByte := 3\<rparr>,
      take 3 (output (Seek zero_cipher 0xFFFFFFFFFFFFFFFF)), Inr (3, None)) \<and>
   Read (Seek zero_cipher 0xFFFFFFFFFFFFFFFF) (replicate 70 0) =
     ((Seek zero_cipher 0xFFFFFFFFFFFFFFFF)\<lparr>nextByte := 64\<rparr>,
      output (Seek zero_cipher 0xFFFFFFFFFFFFFFFF) @ replicate 6 0, Inr (64, Some EOF)) \<and>
   Read ((Seek zero_cipher 0xFFFFFFFFFFFFFFFF)\<lparr>nextByte := 64\<rparr>) [0, 0, 0] =
     ((Seek zero_cipher 0xFFFFFFFFFFFFFFFF)\<lparr>nextByte := 64\<rparr>, [0, 0, 0], Inr (0, Some EOF)) \<and>
   \<not> eof zero_cipher \<and> cursor_ok zero_cipher \<and> length (output zero_cipher) = 64 \<and>
   Read zero_cipher [0, 0, 0] =
     Read_loop (snd (next_block (zero_cipher\<lparr>nextByte := 64\<rparr>))) [0, 0, 0] 0"
proof -
  let ?c = "Seek zero_cipher 0xFFFFFFFFFFFFFFFF"
  have wf: "wf_Cipher ?c" and nb: "nextByte ?c = 0" and e: "eof ?c"
    using wf_zero_cipher by (simp_all add: wf_Seek nextByte_Seek eof_Seek_last)
  then have h: "cursor_ok ?c" "length (output ?c) = 64"
    by (simp_all add: cursor_ok_def wf_Cipher_def)
  have z: "\<not> eof zero_cipher" "cursor_ok zero_cipher" "length (output zero_cipher) = 64"
    "nextByte zero_cipher = 64"
    by (simp_all add: zero_cipher_def cursor_ok_def)
  from Read_drains_and_stops [of ?c "[0, 0, 0]"]
    Read_drains_and_stops [of ?c "replicate 70 0"]
    Read_drains_and_stops [of "?c\<lparr>nextByte := 64\<rparr>" "[0, 0, 0]"]
    Read_drains_and_stops [of zero_cipher "[0, 0, 0]"]
    h e nb z
  show ?thesis
    by (simp add: numeral_3_eq_3)
qed

text \<open>
  The claim as stated fails: \<^verbatim>\<open>Seek\<close> to the last block index generates the final block
  and sets the exhausted condition, and the \<^verbatim>\<open>Read\<close> of one byte that follows returns
  one byte and no end-of-stream.
\<close>

theorem Read_after_exhaustion_counterexample:
  "eof (Seek zero_cipher 0xFFFFFFFFFFFFFFFF) \<and>
   snd (snd (Read (Seek zero_cipher 0xFFFFFFFFFFFFFFFF) [0])) = Inr (1, None)"
proof -
  let ?c = "Seek zero_cipher 0xFFFFFFFFFFFFFFFF"
  have "wf_Cipher ?c" and "nextByte ?c = 0"
    using wf_zero_cipher by (simp_all add: wf_Seek nextByte_Seek)
  then have "snd (snd (Read ?c [0])) = Inr (1, None)"
    by (simp add: Read_buffered_all wf_Cipher_def)
  then show ?thesis
    using wf_zero_cipher by (simp add: eof_Seek_last)
qed

text \<open>
  C7: when the keystream is exhausted at an iteration of \<^verbatim>\<open>XORKeyStream\<close> (the buffer is
  drained and \<^verbatim>\<open>next\<close> fails), the call stops there with \<^verbatim>\<open>panic(err)\<close>, where \<open>err\<close> is
  the exhausted-keystream error: a panic, not the value \<^verbatim>\<open>io.EOF\<close> that \<^verbatim>\<open>Read\<close> returns in
  the same state. A call on an exhausted cipher that asks for more bytes than the buffer
  holds ends in that panic. A call that returns normally is never partial: it has XORed
  all \<open>len(dst)\<close> bytes with the keystream that \<^verbatim>\<open>Read\<close> delivers from the same state.
\<close>

theorem XOR_exhaustion_aborts:
  "(i < length dst \<and> 64 \<le> nextByte c \<and> eof c \<longrightarrow>
      XOR_loop c dst src i = (c, dst, Inl (PanicErr ExhaustedKeystream)) \<and>
      Read_loop c dst i = (c, dst, Inr (i, Some EOF))) \<and>
   (cursor_ok c \<and> length (output c) = 64 \<and> eof c \<and> length dst \<le> length src \<and>
    nat (64 - nextByte c) < length dst \<longrightarrow>
      snd (snd (XORKeyStream c dst src)) = Inl (PanicErr ExhaustedKeystream) \<and>
      snd (snd (Read c dst)) = Inr (nat (64 - nextByte c), Some EOF)) \<and>
   (snd (snd (XORKeyStream c dst src)) = Inr () \<longrightarrow>
      length dst \<le> length src \<and>
      Read c dst = (fst (XORKeyStream c dst src), fst (snd (Read c dst)), Inr (length dst, None)) \<and>
      fst (snd (XORKeyStream c dst src)) = map2 (XOR) src (fst (snd (Read c dst))))"
proof (intro conjI impI)
  assume a: "i < length dst \<and> 64 \<le> nextByte c \<and> eof c"
  then show "XOR_loop c dst src i = (c, dst, Inl (PanicErr ExhaustedKeystream))"
    by (simp add: XOR_loop_exhausted)
  from a show "Read_loop c dst i = (c, dst, Inr (i, Some EOF))"
    by (simp add: Read_loop_exhausted)
next
  assume a: "cursor_ok c \<and> length (output c) = 64 \<and> eof c \<and> length dst \<le> length src \<and>
    nat (64 - nextByte c) < length dst"
  then show "snd (snd (XORKeyStream c dst src)) = Inl (PanicErr ExhaustedKeystream)"
    by (simp add: XOR_exhausted_panics)
  from a show "snd (snd (Read c dst)) = Inr (nat (64 - nextByte c), Some EOF)"
    by (simp add: cursor_ok_def Read_exhausted_partial)
next
  assume a: "snd (snd (XORKeyStream c dst src)) = Inr ()"
  from XOR_normal_return [OF a]
  show "length dst \<le> length src"
    and "Read c dst = (fst (XORKeyStream c dst src), fst (snd (Read c dst)), Inr (length dst, None))"
    and "fst (snd (XORKeyStream c dst src)) = map2 (XOR) src (fst (snd (Read c dst)))" .
qed

theorem XOR_exhaustion_aborts_witness:
  "eof (Seek zero_cipher 0xFFFFFFFFFFFFFFFF) \<and> cursor_ok (Seek zero_cipher 0xFFFFFFFFFFFFFFFF) \<and>
   XOR_loop ((Seek zero_cipher 0xFFFFFFFFFFFFFFFF)\<lparr>nextByte := 64\<rparr>) [7, 8] [1, 2] 1 =
     ((Seek zero_cipher 0xFFFFFFFFFFFFFFFF)\<lparr>nextByte := 64\<rparr>, [7, 8],
      Inl (PanicErr ExhaustedKeystream)) \<and>
   Read_loop ((Seek zero_cipher 0xFFFFFFFFFFFFFFFF)\<lparr>nextByte := 64\<rparr>) [7, 8] 1 =
     ((Seek zero_cipher 0xFFFFFFFFFFFFFFFF)\<lparr>nextByte := 64\<rparr>, [7, 8], Inr (1, Some EOF)) \<and>
   snd (snd (XORKeyStream (Seek zero_cipher 0xFFFFFFFFFFFFFFFF) (replicate 70 0) (replicate 70 1))) =
     Inl (PanicErr ExhaustedKeystream) \<and>
   snd (snd (Read (Seek zero_cipher 0xFFFFFFFFFFFFFFFF) (replicate 70 0))) = Inr (64, Some EOF) \<and>
   snd (snd (XORKeyStream (Seek zero_cipher 0) [0] [1, 2])) = Inr () \<and>
   Read (Seek zero_cipher 0) [0] =
     (fst (XORKeyStream (Seek zero_cipher 0) [0] [1, 2]), fst (snd (Read (Seek zero_cipher 0) [0])),
      Inr (1, None)) \<and>
   fst (snd (XORKeyStream (Seek zero_cipher 0) [0] [1, 2])) =
     map2 (XOR) [1, 2] (fst (snd (Read (Seek zero_cipher 0) [0])))"
proof -
  let ?c = "Seek zero_cipher 0xFFFFFFFFFFFFFFFF" and ?z = "Seek zero_cipher 0"
  have wf: "wf_Cipher ?c" and nb: "nextByte ?c = 0" and e: "eof ?c"
    using wf_zero_cipher by (simp_all add: wf_Seek nextByte_Seek eof_Seek_last)
  then have h: "cursor_ok ?c" "length (output ?c) = 64"
    by (simp_all add: cursor_ok_def wf_Cipher_def)
  have x: "snd (snd (XORKeyStream ?z [0] [1, 2])) = Inr ()"
    by (simp add: XOR_one_byte nextByte_Seek)
  from XOR_exhaustion_aborts [of 1 "[7, 8]" "?c\<lparr>nextByte := 64\<rparr>" "[1, 2]"]
    XOR_exhaustion_aborts [of 0 "replicate 70 0" ?c "replicate 70 1"]
    XOR_exhaustion_aborts [of 0 "[0]" ?z "[1, 2]"]
    h e nb x
  show ?thesis
    by simp
qed

text \<open>
  C8 (as amended): \<^verbatim>\<open>XORKeyStream\<close> does not compare the lengths of its arguments and
  has no error result. When \<open>src\<close> is at least as long as \<open>dst\<close> it works on the first
  \<open>len(dst)\<close> bytes of \<open>src\<close> and ignores the rest. When \<open>src\<close> is shorter than \<open>dst\<close>
  it never returns normally: it panics, with the runtime's index-out-of-range error at
  the index \<open>len(src)\<close>, or with the exhausted-keystream error if the keystream ends first.
\<close>

theorem XOR_lengths:
  "(length dst \<le> length src \<longrightarrow>
      XORKeyStream c dst src = XORKeyStream c dst (take (length dst) src)) \<and>
   (length src < length dst \<longrightarrow>
      snd (snd (XORKeyStream c dst src)) = Inl IndexOutOfRange \<or>
      snd (snd (XORKeyStream c dst src)) = Inl (PanicErr ExhaustedKeystream))"
  using XOR_ignores_longer_src [of dst src c] XOR_short_src_panics [of src dst c]
  by blast

theorem XOR_lengths_witness:
  "length [0 :: byte] \<le> length [1 :: byte, 2] \<and>
   XORKeyStream zero_cipher [0] [1, 2] = XORKeyStream zero_cipher [0] [1] \<and>
   length [1 :: byte] < length [0 :: byte, 0] \<and>
   (snd (snd (XORKeyStream zero_cipher [0, 0] [1])) = Inl IndexOutOfRange \<or>
    snd (snd (XORKeyStream zero_cipher [0, 0] [1])) = Inl (PanicErr ExhaustedKeystream))"
  using XOR_lengths [of "[0]" "[1, 2]" zero_cipher] XOR_lengths [of "[0, 0]" "[1]" zero_cipher]
  by simp

text \<open>
  The claim as stated fails: with a destination of one byte and a source of two, the
  call returns normally, having XORed the first source byte with the first keystream
  byte \<open>0x76\<close> of block 0.
\<close>

theorem XOR_length_mismatch_counterexample:
  "length [0 :: byte] \<noteq> length [1 :: byte, 2] \<and>
   XORKeyStream (Seek zero_cipher 0) [0] [1, 2] =
     ((Seek zero_cipher 0)\<lparr>nextByte := 1\<rparr>, [0x77], Inr ())"
  by (simp add: XOR_one_byte nextByte_Seek output_Seek_zero_0 block_zero)

text \<open>
  C9: the cursor \<^verbatim>\<open>nextByte\<close> is 64 after construction, and it stays in the range from 0
  to 64 through every block generation and every \<^verbatim>\<open>Seek\<close>, \<^verbatim>\<open>Read\<close> and
  \<^verbatim>\<open>XORKeyStream\<close>. Whenever a byte is served the cursor is below 64: the bounds check
  of \<^verbatim>\<open>c.output[c.nextByte]\<close> never fails, so \<^verbatim>\<open>Read\<close> never panics and
  \<^verbatim>\<open>XORKeyStream\<close> never panics on an index when \<open>src\<close> is at least as long as \<open>dst\<close>.
\<close>

theorem cursor_in_range:
  "(New key iv r = Inr c0 \<longrightarrow> nextByte c0 = 64) \<and>
   (cursor_ok c \<longrightarrow>
      cursor_ok (snd (next_block c)) \<and>
      cursor_ok (Seek c n) \<and>
      cursor_ok (fst (Read c p)) \<and>
      cursor_ok (fst (XORKeyStream c dst src)) \<and>
      (\<exists>k err. snd (snd (Read c p)) = Inr (k, err)) \<and>
      (length dst \<le> length src \<longrightarrow>
         snd (snd (XORKeyStream c dst src)) \<noteq> Inl IndexOutOfRange))"
proof -
  have "nextByte c0 = 64" if "New key iv r = Inr c0"
  proof -
    from that have "32 \<le> length key" "8 \<le> length iv"
      using New_short_key [of key iv r] New_short_iv [of key iv r]
      by (auto simp add: not_less [symmetric])
    with that show ?thesis
      by (auto simp add: New_long)
  qed
  moreover have "\<exists>k err. snd (snd (Read c p)) = Inr (k, err)" if "cursor_ok c"
    using Read_loop_no_panic [OF that, of p 0] by (simp add: Read_def)
  ultimately show ?thesis
    by (auto simp add: cursor_ok_next_block cursor_ok_Read_loop cursor_ok_XOR_loop Read_def
        XORKeyStream_def XOR_loop_no_index_panic cursor_ok_def [of "Seek c n"] nextByte_Seek)
qed

theorem cursor_in_range_witness:
  "New (replicate 32 0) (replicate 8 0) 20 = Inr zero_cipher \<and> nextByte zero_cipher = 64 \<and>
   cursor_ok zero_cipher \<and>
   cursor_ok (snd (next_block zero_cipher)) \<and>
   cursor_ok (Seek zero_cipher 7) \<and>
   cursor_ok (fst (Read zero_cipher [0, 0, 0])) \<and>
   cursor_ok (fst (XORKeyStream zero_cipher [0, 0] [1, 2])) \<and>
   (\<exists>k err. snd (snd (Read zero_cipher [0, 0, 0])) = Inr (k, err)) \<and>
   length [0 :: byte, 0] \<le> length [1 :: byte, 2] \<and>
   snd (snd (XORKeyStream zero_cipher [0, 0] [1, 2])) \<noteq> Inl IndexOutOfRange"
proof -
  have h: "cursor_ok zero_cipher"
    by (simp add: cursor_ok_def zero_cipher_def)
  from cursor_in_range [of "replicate 32 0" "replicate 8 0" 20 zero_cipher zero_cipher 7
      "[0, 0, 0]" "[0, 0]" "[1, 2]"] h New_zero
  show ?thesis
    by simp
qed

end
